theory Spec2Isabelle
  imports Complex_Main "HOL-Library.Word"
begin

section \<open>Data model of the simulator (src/src/main.c)\<close>

text \<open>
  The simulator is one C file. Its data are modelled as the code has them:
  \<^item> \<open>unsigned int\<close> (addresses, VPNs) and \<open>int\<close> (frame occupants, flags, counters)
    are \<open>32 word\<close>; the occupant array \<open>frames\<close> stores the bit pattern of \<open>(int)vpn\<close>
    and the marker \<open>-1\<close> is the word \<open>- 1\<close> (all bits set);
  \<^item> \<open>unsigned long\<close> (the tick and the recency stamps) and \<open>long long\<close> (the
    write-back counter) are \<open>64 word\<close>;
  \<^item> an array of \<open>n\<close> cells is a list of length \<open>n\<close>; loop indices, which stay in
    \<open>0 .. n\<close>, are natural numbers; the \<open>frame_index\<close> field of a TLB entry is an
    \<open>int\<close>, so that the range test of the TLB hit path is kept;
  \<^item> an access outside an array (undefined behaviour in C) is the result \<open>None\<close>.
\<close>

datatype Algorithm = ALG_FIFO | ALG_LRU | ALG_CLOCK

datatype WritePolicy = WP_WRITE_THROUGH | WP_WRITE_BACK

record TLBEntry =
  valid :: "32 word"
  vpn :: "32 word"
  frame_index :: int
  last_used :: "64 word"

text \<open>The configuration that argument parsing leaves behind (lines 92-133).\<close>

record config =
  alg :: Algorithm
  write_policy :: WritePolicy
  tlb_size :: nat
  num_frames :: nat

text \<open>The local variables of \<open>main\<close> that the simulation loop reads and writes (lines 148-203).\<close>

record sim_state =
  reads :: "32 word"
  writes :: "32 word"
  page_faults :: "32 word"
  tlb_hits :: "32 word"
  tlb_misses :: "32 word"
  write_backs :: "64 word"
  frames :: "32 word list"
  frame_last_used :: "64 word list"
  ref_bits :: "32 word list"
  dirty :: "32 word list"
  fifo_index :: nat
  clock_hand :: nat
  tick :: "64 word"
  tlb :: "TLBEntry list"

definition PAGE_SIZE :: "32 word" where
  "PAGE_SIZE = 4096"

section \<open>Loops shared by the TLB and the frame cache\<close>

text \<open>
  \<open>for (i = 0; i < n; i++) if (P(a[i])) { ...; break; }\<close>: the first index whose cell
  satisfies the test, or none. The source has this loop five times (lines 30-36, 45-51,
  54-62, 249-255, 285-290).
\<close>

fun first_index :: "('a \<Rightarrow> bool) \<Rightarrow> 'a list \<Rightarrow> nat option" where
  "first_index P [] = None"
| "first_index P (x # xs) = (if P x then Some 0 else map_option Suc (first_index P xs))"

text \<open>
  \<open>victim = 0; for (i = 1; i < n; i++) if (a[i] < a[victim]) victim = i;\<close>
  (lines 65-68 on the TLB stamps, lines 298-303 on the frame stamps).
\<close>

function lru_loop :: "64 word list \<Rightarrow> nat \<Rightarrow> nat \<Rightarrow> nat" where
  "lru_loop lu i victim =
     (if i < length lu
      then lru_loop lu (Suc i) (if lu ! i < lu ! victim then i else victim)
      else victim)"
  by pat_completeness auto
termination
  by (relation "measure (\<lambda>(lu, i, victim). length lu - i)") auto

definition lru_victim :: "64 word list \<Rightarrow> nat" where
  "lru_victim lu = lru_loop lu 1 0"

section \<open>The TLB (lines 27-82)\<close>

text \<open>\<open>tlb_lookup\<close>: \<open>None\<close> is the miss (return 0); a hit returns the updated array and
  the frame index written to \<open>*out_frame\<close>.\<close>

definition tlb_lookup :: "TLBEntry list \<Rightarrow> 32 word \<Rightarrow> 64 word \<Rightarrow> (TLBEntry list \<times> int) option" where
  "tlb_lookup tb v t =
     (case first_index (\<lambda>e. valid e \<noteq> 0 \<and> vpn e = v) tb of
        None \<Rightarrow> None
      | Some i \<Rightarrow> Some (tb[i := (tb ! i)\<lparr>last_used := t\<rparr>], frame_index (tb ! i)))"

definition tlb_insert :: "TLBEntry list \<Rightarrow> 32 word \<Rightarrow> int \<Rightarrow> 64 word \<Rightarrow> TLBEntry list" where
  "tlb_insert tb v f t =
     (if tb = [] then tb
      else case first_index (\<lambda>e. valid e \<noteq> 0 \<and> vpn e = v) tb of
        Some i \<Rightarrow> tb[i := (tb ! i)\<lparr>frame_index := f, last_used := t\<rparr>]
      | None \<Rightarrow>
         (case first_index (\<lambda>e. valid e = 0) tb of
            Some i \<Rightarrow> tb[i := (tb ! i)\<lparr>valid := 1, vpn := v, frame_index := f, last_used := t\<rparr>]
          | None \<Rightarrow>
              (let victim = lru_victim (map last_used tb)
               in tb[victim := (tb ! victim)\<lparr>valid := 1, vpn := v, frame_index := f,
                                             last_used := t\<rparr>])))"

definition tlb_invalidate_vpn :: "TLBEntry list \<Rightarrow> 32 word \<Rightarrow> TLBEntry list" where
  "tlb_invalidate_vpn tb v =
     map (\<lambda>e. if valid e \<noteq> 0 \<and> vpn e = v then e\<lparr>valid := 0\<rparr> else e) tb"

section \<open>The simulation loop (lines 147-349)\<close>

text \<open>The state before the first record: counters zero, every frame empty, the arrays
  from \<open>calloc\<close> zeroed (lines 148-203).\<close>

definition init_state :: "config \<Rightarrow> sim_state" where
  "init_state cfg =
     \<lparr>reads = 0, writes = 0, page_faults = 0, tlb_hits = 0, tlb_misses = 0, write_backs = 0,
      frames = replicate (num_frames cfg) (- 1),
      frame_last_used = replicate (num_frames cfg) 0,
      ref_bits = replicate (num_frames cfg) 0,
      dirty = replicate (num_frames cfg) 0,
      fifo_index = 0, clock_hand = 0, tick = 0,
      tlb = replicate (tlb_size cfg) \<lparr>valid = 0, vpn = 0, frame_index = 0, last_used = 0\<rparr>\<rparr>"

text \<open>
  The three assignments made to the frame an access lands on. The source writes them out
  three times: after a TLB hit (lines 227-235), after a frame hit (lines 261-269) and after
  a placement (lines 332-340).
\<close>

definition touch_frame :: "config \<Rightarrow> char \<Rightarrow> nat \<Rightarrow> sim_state \<Rightarrow> sim_state" where
  "touch_frame cfg opc i s =
     s\<lparr>frame_last_used :=
          (if alg cfg = ALG_LRU then (frame_last_used s)[i := tick s] else frame_last_used s),
        ref_bits := (if alg cfg = ALG_CLOCK then (ref_bits s)[i := 1] else ref_bits s),
        dirty :=
          (if opc = CHR ''W'' \<and> write_policy cfg = WP_WRITE_BACK then (dirty s)[i := 1]
           else dirty s)\<rparr>"

text \<open>
  The CLOCK scan, \<open>while (1)\<close> of lines 306-314, on the reference bits, the hand and
  \<open>num_frames\<close>. It returns the victim, the bits, the hand and the number of frames it
  visited; that number is not in the source, it counts the loop's iterations starting
  from the argument \<open>k\<close>. The scan reads \<open>ref_bits[clock_hand]\<close>: a hand outside the
  array is \<open>None\<close>.
\<close>

function clock_scan :: "32 word list \<Rightarrow> nat \<Rightarrow> nat \<Rightarrow> nat \<Rightarrow> (nat \<times> 32 word list \<times> nat \<times> nat) option" where
  "clock_scan rb hand n k =
     (if hand < length rb
      then (if rb ! hand = 0 then Some (hand, rb, (hand + 1) mod n, Suc k)
            else clock_scan (rb[hand := 0]) ((hand + 1) mod n) n (Suc k))
      else None)"
  by pat_completeness auto
termination
  by (relation "measure (\<lambda>(rb, hand, n, k). card {i. i < length rb \<and> rb ! i \<noteq> 0})")
     (auto intro!: psubset_card_mono simp: nth_list_update)

text \<open>
  Victim choice on a page fault (lines 282-316): the first empty frame if there is one,
  otherwise the configured policy. The result is the victim with the state the choice
  leaves (FIFO pointer, CLOCK hand and reference bits).
\<close>

definition choose_victim :: "config \<Rightarrow> sim_state \<Rightarrow> (nat \<times> sim_state) option" where
  "choose_victim cfg s =
     (case first_index (\<lambda>x. x = - 1) (frames s) of
        Some i \<Rightarrow> Some (i, s)
      | None \<Rightarrow>
         (case alg cfg of
            ALG_FIFO \<Rightarrow>
              Some (fifo_index s, s\<lparr>fifo_index := (fifo_index s + 1) mod num_frames cfg\<rparr>)
          | ALG_LRU \<Rightarrow> Some (lru_victim (frame_last_used s), s)
          | ALG_CLOCK \<Rightarrow>
              (case clock_scan (ref_bits s) (clock_hand s) (num_frames cfg) 0 of
                 None \<Rightarrow> None
               | Some (victim, rb, hand, k) \<Rightarrow>
                   Some (victim, s\<lparr>ref_bits := rb, clock_hand := hand\<rparr>))))"

text \<open>Eviction bookkeeping for the chosen victim (lines 319-328).\<close>

definition evict_victim :: "config \<Rightarrow> nat \<Rightarrow> sim_state \<Rightarrow> sim_state" where
  "evict_victim cfg victim s =
     (if frames s ! victim \<noteq> - 1
      then (let s1 = (if tlb_size cfg > 0
                      then s\<lparr>tlb := tlb_invalidate_vpn (tlb s) (frames s ! victim)\<rparr>
                      else s)
            in if write_policy cfg = WP_WRITE_BACK \<and> dirty s1 ! victim \<noteq> 0
               then s1\<lparr>write_backs := write_backs s1 + 1, dirty := (dirty s1)[victim := 0]\<rparr>
               else s1)
      else s)"

text \<open>Placement of the new page in the victim frame (lines 330-345).\<close>

definition install_page :: "config \<Rightarrow> char \<Rightarrow> 32 word \<Rightarrow> nat \<Rightarrow> sim_state \<Rightarrow> sim_state" where
  "install_page cfg opc v victim s =
     (let s1 = touch_frame cfg opc victim (s\<lparr>frames := (frames s)[victim := v]\<rparr>)
      in if tlb_size cfg > 0
         then s1\<lparr>tlb := tlb_insert (tlb s1) v (int victim) (tick s1)\<rparr>
         else s1)"

text \<open>The page-fault branch (lines 276-346). The victim indexes four arrays of
  \<open>num_frames\<close> cells: a victim outside them is \<open>None\<close>.\<close>

definition page_fault :: "config \<Rightarrow> char \<Rightarrow> 32 word \<Rightarrow> sim_state \<Rightarrow> sim_state option" where
  "page_fault cfg opc v s =
     (case choose_victim cfg (s\<lparr>page_faults := page_faults s + 1\<rparr>) of
        None \<Rightarrow> None
      | Some (victim, s1) \<Rightarrow>
          (if victim < num_frames cfg \<and> victim < length (frames s1)
              \<and> victim < length (dirty s1)
           then Some (install_page cfg opc v victim (evict_victim cfg victim s1))
           else None))"

text \<open>The frame scan and its two outcomes (lines 246-346).\<close>

definition resolve :: "config \<Rightarrow> char \<Rightarrow> 32 word \<Rightarrow> sim_state \<Rightarrow> sim_state option" where
  "resolve cfg opc v s =
     (case first_index (\<lambda>x. x = v) (frames s) of
        Some i \<Rightarrow>
          (let s1 = touch_frame cfg opc i s
           in Some (if tlb_size cfg > 0
                    then s1\<lparr>tlb := tlb_insert (tlb s1) v (int i) (tick s1)\<rparr>
                    else s1))
      | None \<Rightarrow> page_fault cfg opc v s)"

text \<open>A counted access: the TLB lookup when the TLB is enabled, then the frame cache
  (lines 216-346).\<close>

definition access :: "config \<Rightarrow> char \<Rightarrow> 32 word \<Rightarrow> sim_state \<Rightarrow> sim_state option" where
  "access cfg opc addr s =
     (let v = addr div PAGE_SIZE
      in if tlb_size cfg > 0
         then (case tlb_lookup (tlb s) v (tick s) of
                 Some (tb, fi) \<Rightarrow>
                   (let s1 = s\<lparr>tlb := tb, tlb_hits := tlb_hits s + 1\<rparr>
                    in Some (if 0 \<le> fi \<and> fi < int (num_frames cfg)
                             then touch_frame cfg opc (nat fi) s1
                             else s1))
               | None \<Rightarrow> resolve cfg opc v (s\<lparr>tlb_misses := tlb_misses s + 1\<rparr>))
         else resolve cfg opc v s)"

text \<open>One iteration of the \<open>while\<close> loop on a record that \<open>fscanf\<close> delivered
  (lines 209-349).\<close>

definition process_record :: "config \<Rightarrow> sim_state \<Rightarrow> char \<times> 32 word \<Rightarrow> sim_state option" where
  "process_record cfg s r =
     (let s1 = s\<lparr>tick := tick s + 1\<rparr>
      in if fst r = CHR ''R'' then access cfg (fst r) (snd r) (s1\<lparr>reads := reads s1 + 1\<rparr>)
         else if fst r = CHR ''W'' then access cfg (fst r) (snd r) (s1\<lparr>writes := writes s1 + 1\<rparr>)
         else Some s1)"

fun run_trace :: "config \<Rightarrow> sim_state \<Rightarrow> (char \<times> 32 word) list \<Rightarrow> sim_state option" where
  "run_trace cfg s [] = Some s"
| "run_trace cfg s (r # rs) =
     (case process_record cfg s r of None \<Rightarrow> None | Some s1 \<Rightarrow> run_trace cfg s1 rs)"

definition simulate :: "config \<Rightarrow> (char \<times> 32 word) list \<Rightarrow> sim_state option" where
  "simulate cfg recs = run_trace cfg (init_state cfg) recs"

section \<open>The final report (lines 153-155 and 368-399)\<close>

text \<open>
  The rates of the final report are C \<open>double\<close>s. A \<open>double\<close> is modelled by the real
  number it denotes, and the rounding that the platform applies to the result of each
  floating-point operation is the parameter \<open>rnd\<close> of the definitions: the identity gives
  exact arithmetic. The conversion \<open>(double)x\<close> of an \<open>int\<close> is exact. A quotient whose
  divisor is zero is the error \<open>ZeroDenominator\<close>. The tests \<open>total_accesses > 0\<close> and
  \<open>tlb_total > 0\<close> compare \<open>int\<close>s: they are signed comparisons of the 32-bit sums.
  The report prints the rates multiplied by 100 and the AMAT, with two decimals.
\<close>

definition TLB_LAT :: real where
  "TLB_LAT = 1"

definition MEM_LAT :: real where
  "MEM_LAT = 100"

definition DISK_LAT :: real where
  "DISK_LAT = 10000000"

datatype report_error = ZeroDenominator

definition to_double :: "32 word \<Rightarrow> real" where
  "to_double x = real_of_int (sint x)"

definition ddiv :: "(real \<Rightarrow> real) \<Rightarrow> real \<Rightarrow> real \<Rightarrow> report_error + real" where
  "ddiv rnd x y = (if y = 0 then Inl ZeroDenominator else Inr (rnd (x / y)))"

text \<open>Lines 372-377: \<open>fault_rate\<close> and \<open>hit_rate\<close>, or nothing when there was no access.\<close>

definition memory_rates :: "(real \<Rightarrow> real) \<Rightarrow> sim_state \<Rightarrow> report_error + (real \<times> real) option" where
  "memory_rates rnd s =
     (let total_accesses = reads s + writes s
      in if 0 <s total_accesses
         then (case ddiv rnd (to_double (page_faults s)) (to_double total_accesses) of
                 Inl e \<Rightarrow> Inl e
               | Inr fault_rate \<Rightarrow> Inr (Some (fault_rate, rnd (1 - fault_rate))))
         else Inr None)"

text \<open>Lines 379-399: \<open>tlb_hit_rate\<close> and \<open>amat\<close>, or nothing when the TLB is disabled or
  was never looked up.\<close>

definition tlb_rates :: "(real \<Rightarrow> real) \<Rightarrow> config \<Rightarrow> sim_state \<Rightarrow> report_error + (real \<times> real) option" where
  "tlb_rates rnd cfg s =
     (let total_accesses = reads s + writes s;
          tlb_total = tlb_hits s + tlb_misses s
      in if 0 < tlb_size cfg
         then (if 0 <s tlb_total
               then (case ddiv rnd (to_double (tlb_hits s)) (to_double tlb_total) of
                       Inl e \<Rightarrow> Inl e
                     | Inr tlb_hit_rate \<Rightarrow>
                        (case (if 0 <s total_accesses
                               then ddiv rnd (to_double (page_faults s)) (to_double total_accesses)
                               else Inr 0) of
                           Inl e \<Rightarrow> Inl e
                         | Inr page_fault_rate \<Rightarrow>
                            (let base = rnd (rnd (tlb_hit_rate * TLB_LAT)
                                             + rnd (rnd (1 - tlb_hit_rate) * MEM_LAT));
                                 amat = rnd (base + rnd (page_fault_rate * DISK_LAT))
                             in Inr (Some (tlb_hit_rate, amat)))))
               else Inr None)
         else Inr None)"

text \<open>The rates that the report computes; a field is \<open>None\<close> when the report does not
  compute that rate.\<close>

record rates =
  fault_rate :: "real option"
  hit_rate :: "real option"
  tlb_hit_rate :: "real option"
  amat :: "real option"

definition final_report :: "(real \<Rightarrow> real) \<Rightarrow> config \<Rightarrow> sim_state \<Rightarrow> report_error + rates" where
  "final_report rnd cfg s =
     (case memory_rates rnd s of
        Inl e \<Rightarrow> Inl e
      | Inr m \<Rightarrow>
         (case tlb_rates rnd cfg s of
            Inl e \<Rightarrow> Inl e
          | Inr t \<Rightarrow>
              Inr \<lparr>fault_rate = map_option fst m, hit_rate = map_option snd m,
                   tlb_hit_rate = map_option fst t, amat = map_option snd t\<rparr>))"

section \<open>Predicates on configurations and states\<close>

text \<open>Argument parsing leaves \<open>num_frames > 0\<close> (line 112 rejects anything else).\<close>

definition cfg_ok :: "config \<Rightarrow> bool" where
  "cfg_ok cfg \<longleftrightarrow> 0 < num_frames cfg"

text \<open>The VPNs that are resident: the occupants other than the marker \<open>-1\<close>.\<close>

definition resident :: "32 word list \<Rightarrow> 32 word list" where
  "resident frs = filter (\<lambda>x. x \<noteq> - 1) frs"

text \<open>No two frames hold the same page.\<close>

definition no_dup :: "32 word list \<Rightarrow> bool" where
  "no_dup frs \<longleftrightarrow> distinct (resident frs)"

text \<open>Every valid TLB entry names a frame of the array, and that frame holds the
  entry's page.\<close>

definition tlb_consistent :: "32 word list \<Rightarrow> TLBEntry list \<Rightarrow> bool" where
  "tlb_consistent frs tb \<longleftrightarrow>
     (\<forall>e \<in> set tb. valid e \<noteq> 0 \<longrightarrow>
        0 \<le> frame_index e \<and> frame_index e < int (length frs)
        \<and> frs ! nat (frame_index e) = vpn e \<and> vpn e \<noteq> - 1)"

text \<open>The four frame arrays have \<open>num_frames\<close> cells, the TLB has \<open>tlb_size\<close> entries,
  and the FIFO pointer and the CLOCK hand are indices of a frame.\<close>

definition arrays_ok :: "config \<Rightarrow> sim_state \<Rightarrow> bool" where
  "arrays_ok cfg s \<longleftrightarrow>
     length (frames s) = num_frames cfg \<and> length (frame_last_used s) = num_frames cfg
     \<and> length (ref_bits s) = num_frames cfg \<and> length (dirty s) = num_frames cfg
     \<and> length (tlb s) = tlb_size cfg
     \<and> fifo_index s < num_frames cfg \<and> clock_hand s < num_frames cfg"

text \<open>No dirty bit is set.\<close>

definition all_clean :: "sim_state \<Rightarrow> bool" where
  "all_clean s \<longleftrightarrow> (\<forall>d \<in> set (dirty s). d = 0)"

definition state_ok :: "config \<Rightarrow> sim_state \<Rightarrow> bool" where
  "state_ok cfg s \<longleftrightarrow>
     arrays_ok cfg s \<and> no_dup (frames s) \<and> tlb_consistent (frames s) (tlb s)
     \<and> (write_policy cfg = WP_WRITE_THROUGH \<longrightarrow> all_clean s)"

text \<open>The step from \<open>s\<close> to \<open>s'\<close> is a page fault under write-back that put the page \<open>v\<close>
  into a frame whose occupant was dirty.\<close>

definition dirty_eviction :: "config \<Rightarrow> 32 word \<Rightarrow> sim_state \<Rightarrow> sim_state \<Rightarrow> bool" where
  "dirty_eviction cfg v s s' \<longleftrightarrow>
     write_policy cfg = WP_WRITE_BACK \<and> page_faults s' = page_faults s + 1
     \<and> (\<exists>k<length (frames s). frames s ! k \<noteq> - 1 \<and> dirty s ! k \<noteq> 0
           \<and> frames s' = (frames s)[k := v] \<and> v \<notin> set (frames s))"

text \<open>The step from \<open>s\<close> to \<open>s'\<close> placed the page \<open>v\<close>, which no frame held, in frame \<open>k\<close>,
  with the write-back count and the dirty bit of frame \<open>k\<close> that lines 319-340 leave for
  the operation \<open>opc\<close>.\<close>

definition placement :: "config \<Rightarrow> char \<Rightarrow> 32 word \<Rightarrow> nat \<Rightarrow> sim_state \<Rightarrow> sim_state \<Rightarrow> bool" where
  "placement cfg opc v k s s' \<longleftrightarrow>
     k < length (frames s) \<and> k < length (dirty s) \<and> v \<notin> set (frames s)
     \<and> frames s' = (frames s)[k := v]
     \<and> page_faults s' = page_faults s + 1
     \<and> write_backs s' =
          (if frames s ! k \<noteq> - 1 \<and> write_policy cfg = WP_WRITE_BACK \<and> dirty s ! k \<noteq> 0
           then write_backs s + 1 else write_backs s)
     \<and> dirty s' ! k =
          (if opc = CHR ''W'' \<and> write_policy cfg = WP_WRITE_BACK then 1
           else if frames s ! k \<noteq> - 1 \<and> write_policy cfg = WP_WRITE_BACK \<and> dirty s ! k \<noteq> 0
           then 0 else dirty s ! k)"

text \<open>The frame that an access to the page \<open>v\<close> lands on under LRU: the frame that holds
  \<open>v\<close>; if there is none, the first empty frame; if there is none, the LRU victim.\<close>

definition lru_slot :: "32 word list \<Rightarrow> 64 word list \<Rightarrow> 32 word \<Rightarrow> nat" where
  "lru_slot frs lu v =
     (case first_index (\<lambda>x. x = v) frs of
        Some i \<Rightarrow> i
      | None \<Rightarrow> (case first_index (\<lambda>x. x = - 1) frs of
                   Some j \<Rightarrow> j
                 | None \<Rightarrow> lru_victim lu))"

section \<open>Example configurations\<close>

text \<open>Two frames under each policy: the configurations of the example runs below.\<close>

definition fifo2 :: "WritePolicy \<Rightarrow> config" where
  "fifo2 wp = \<lparr>alg = ALG_FIFO, write_policy = wp, tlb_size = 0, num_frames = 2\<rparr>"

definition lru2 :: "nat \<Rightarrow> config" where
  "lru2 n = \<lparr>alg = ALG_LRU, write_policy = WP_WRITE_BACK, tlb_size = n, num_frames = 2\<rparr>"

definition clock2 :: config where
  "clock2 = \<lparr>alg = ALG_CLOCK, write_policy = WP_WRITE_BACK, tlb_size = 2, num_frames = 2\<rparr>"

section \<open>Lemmas on the loops\<close>

lemma first_index_Some:
  "first_index P xs = Some i \<Longrightarrow> i < length xs \<and> P (xs ! i) \<and> (\<forall>j<i. \<not> P (xs ! j))"
proof (induction xs arbitrary: i)
  case Nil
  then show ?case by simp
next
  case (Cons x xs)
  show ?case
  proof (cases "P x")
    case True
    with Cons.prems show ?thesis by simp
  next
    case False
    with Cons.prems obtain k where k: "first_index P xs = Some k" "i = Suc k"
      by auto
    from Cons.IH [OF k(1)] False k(2) show ?thesis
      by (auto simp: nth_Cons split: nat.splits)
  qed
qed

lemma first_index_None: "first_index P xs = None \<longleftrightarrow> (\<forall>x\<in>set xs. \<not> P x)"
  by (induction xs) auto

declare lru_loop.simps [simp del]

lemma lru_loop_min:
  "victim < i \<Longrightarrow> i \<le> length lu \<Longrightarrow>
   (\<forall>j<i. lu ! victim \<le> lu ! j \<and> (j < victim \<longrightarrow> lu ! victim < lu ! j)) \<Longrightarrow>
   lru_loop lu i victim < length lu \<and>
   (\<forall>j<length lu. lu ! lru_loop lu i victim \<le> lu ! j
       \<and> (j < lru_loop lu i victim \<longrightarrow> lu ! lru_loop lu i victim < lu ! j))"
proof (induction lu i victim rule: lru_loop.induct)
  case (1 lu i victim)
  show ?case
  proof (cases "i < length lu")
    case False
    with "1.prems" have "i = length lu" by simp
    with "1.prems" show ?thesis by (subst (1 2 3 4) lru_loop.simps) simp
  next
    case True
    let ?v = "if lu ! i < lu ! victim then i else victim"
    have a: "?v < Suc i" using "1.prems" by simp
    have b: "Suc i \<le> length lu" using True by simp
    have c: "\<forall>j<Suc i. lu ! ?v \<le> lu ! j \<and> (j < ?v \<longrightarrow> lu ! ?v < lu ! j)"
    proof (intro allI impI)
      fix j assume "j < Suc i"
      then consider "j < i" | "j = i" by linarith
      then show "lu ! ?v \<le> lu ! j \<and> (j < ?v \<longrightarrow> lu ! ?v < lu ! j)"
      proof cases
        case 1
        with "1.prems"(3) have h: "lu ! victim \<le> lu ! j" "j < victim \<longrightarrow> lu ! victim < lu ! j"
          by auto
        show ?thesis
        proof (cases "lu ! i < lu ! victim")
          case True
          with h 1 show ?thesis by auto
        next
          case False
          with h show ?thesis by simp
        qed
      next
        case 2
        with "1.prems"(1) show ?thesis by auto
      qed
    qed
    from "1.IH" [OF True a b c] True show ?thesis
      by (subst (1 2 3 4) lru_loop.simps) simp
  qed
qed

lemma lru_victim_min:
  assumes "lu \<noteq> []"
  shows "lru_victim lu < length lu"
    and "\<And>j. j < length lu \<Longrightarrow> lu ! lru_victim lu \<le> lu ! j"
    and "\<And>j. j < lru_victim lu \<Longrightarrow> lu ! lru_victim lu < lu ! j"
proof -
  have l: "1 \<le> length lu" using assms by (cases lu) auto
  have h: "\<forall>j<1. lu ! 0 \<le> lu ! j \<and> (j < 0 \<longrightarrow> lu ! 0 < lu ! j)" by simp
  have "(0::nat) < 1" by simp
  note r = lru_loop_min [OF this l h, folded lru_victim_def]
  show "lru_victim lu < length lu" using r by simp
  show "\<And>j. j < length lu \<Longrightarrow> lu ! lru_victim lu \<le> lu ! j" using r by simp
  show "\<And>j. j < lru_victim lu \<Longrightarrow> lu ! lru_victim lu < lu ! j"
    using r by (meson less_trans)
qed

section \<open>The VPN of a 32-bit address\<close>

lemma vpn_bound: "unat ((addr :: 32 word) div PAGE_SIZE) < 2 ^ 20"
proof -
  have "unat addr < 2 ^ 32" using unsigned_less [of addr] by simp
  then have "unat addr div 4096 < 2 ^ 20" by simp
  then show ?thesis by (simp add: PAGE_SIZE_def unat_div)
qed

lemma vpn_not_marker: "(addr :: 32 word) div PAGE_SIZE \<noteq> - 1"
proof
  assume "addr div PAGE_SIZE = - 1"
  then have "unat (addr div PAGE_SIZE) = unat (- 1 :: 32 word)" by simp
  with vpn_bound [of addr] show False by (simp add: unsigned_minus_1_eq_mask mask_eq_exp_minus_1)
qed

lemma vpn_sint: "sint ((addr :: 32 word) div PAGE_SIZE) = uint (addr div PAGE_SIZE)"
proof -
  have "unat (addr div PAGE_SIZE) < 2 ^ 20" by (rule vpn_bound)
  then have "uint (addr div PAGE_SIZE) < 2 ^ 20"
    by (metis of_nat_less_numeral_power_cancel_iff uint_nat)
  then have u: "uint (addr div PAGE_SIZE) < 2 ^ 31" by simp
  have l: "- (2 ^ 31) \<le> uint (addr div PAGE_SIZE)"
    by (rule order_trans [of _ 0]) simp_all
  show ?thesis
    using l u by (simp add: sint_uint signed_take_bit_int_eq_self)
qed

section \<open>Lemmas on the TLB and on residency\<close>

lemma length_tlb_insert [simp]: "length (tlb_insert tb v f t) = length tb"
  by (simp add: tlb_insert_def Let_def split: option.splits)

lemma length_tlb_invalidate_vpn [simp]: "length (tlb_invalidate_vpn tb v) = length tb"
  by (simp add: tlb_invalidate_vpn_def)

lemma tlb_lookup_Some:
  assumes "tlb_lookup tb v t = Some (tb', fi)"
  shows "\<exists>i<length tb. valid (tb ! i) \<noteq> 0 \<and> vpn (tb ! i) = v \<and> fi = frame_index (tb ! i)
            \<and> tb' = tb[i := (tb ! i)\<lparr>last_used := t\<rparr>]
            \<and> (\<forall>j<i. \<not> (valid (tb ! j) \<noteq> 0 \<and> vpn (tb ! j) = v))"
proof -
  from assms obtain i where i: "first_index (\<lambda>e. valid e \<noteq> 0 \<and> vpn e = v) tb = Some i"
    and r: "tb' = tb[i := (tb ! i)\<lparr>last_used := t\<rparr>]" "fi = frame_index (tb ! i)"
    by (auto simp: tlb_lookup_def split: option.splits)
  from first_index_Some [OF i] r show ?thesis by blast
qed

lemma tlb_lookup_None:
  "tlb_lookup tb v t = None \<longleftrightarrow> (\<forall>e\<in>set tb. \<not> (valid e \<noteq> 0 \<and> vpn e = v))"
proof -
  have "tlb_lookup tb v t = None \<longleftrightarrow> first_index (\<lambda>e. valid e \<noteq> 0 \<and> vpn e = v) tb = None"
    by (simp add: tlb_lookup_def split: option.splits)
  then show ?thesis by (simp add: first_index_None)
qed

lemma tlb_lookup_length:
  "tlb_lookup tb v t = Some (tb', fi) \<Longrightarrow> length tb' = length tb"
  by (auto dest: tlb_lookup_Some)

lemma tlb_lookup_consistent:
  assumes c: "tlb_consistent frs tb" and l: "tlb_lookup tb v t = Some (tb', fi)"
  shows "tlb_consistent frs tb' \<and> 0 \<le> fi \<and> fi < int (length frs) \<and> frs ! nat fi = v \<and> v \<noteq> - 1"
proof -
  from tlb_lookup_Some [OF l] obtain i where i: "i < length tb" "valid (tb ! i) \<noteq> 0"
    "vpn (tb ! i) = v" "fi = frame_index (tb ! i)" "tb' = tb[i := (tb ! i)\<lparr>last_used := t\<rparr>]"
    by blast
  have m: "tb ! i \<in> set tb" using i(1) by simp
  have "tlb_consistent frs tb'"
    unfolding tlb_consistent_def
  proof (intro ballI impI)
    fix e assume e: "e \<in> set tb'" "valid e \<noteq> 0"
    from e(1) i(5) have "e \<in> insert ((tb ! i)\<lparr>last_used := t\<rparr>) (set tb)"
      using set_update_subset_insert by fastforce
    then obtain e0 where e0: "e0 \<in> set tb" "valid e = valid e0" "vpn e = vpn e0"
      "frame_index e = frame_index e0"
      using m by auto
    with c e(2) show "0 \<le> frame_index e \<and> frame_index e < int (length frs)
        \<and> frs ! nat (frame_index e) = vpn e \<and> vpn e \<noteq> - 1"
      by (simp add: tlb_consistent_def)
  qed
  moreover from c m i(2,3,4) have "0 \<le> fi \<and> fi < int (length frs) \<and> frs ! nat fi = v \<and> v \<noteq> - 1"
    by (auto simp: tlb_consistent_def)
  ultimately show ?thesis by simp
qed

lemma tlb_insert_mem:
  assumes "e \<in> set (tlb_insert tb v f t)"
  shows "e \<in> set tb \<or> (vpn e = v \<and> frame_index e = f)"
proof (cases "tb = []")
  case True
  with assms show ?thesis by (simp add: tlb_insert_def)
next
  case False
  show ?thesis
  proof (cases "first_index (\<lambda>e. valid e \<noteq> 0 \<and> vpn e = v) tb")
    case (Some i)
    from first_index_Some [OF Some] have "vpn (tb ! i) = v" by simp
    moreover from assms False Some
    have "e \<in> insert ((tb ! i)\<lparr>frame_index := f, last_used := t\<rparr>) (set tb)"
      using set_update_subset_insert by (fastforce simp: tlb_insert_def)
    ultimately show ?thesis by auto
  next
    case None
    note n1 = None
    show ?thesis
    proof (cases "first_index (\<lambda>e. valid e = 0) tb")
      case (Some i)
      from assms False n1 Some
      have "e \<in> insert ((tb ! i)\<lparr>valid := 1, vpn := v, frame_index := f, last_used := t\<rparr>) (set tb)"
        using set_update_subset_insert by (fastforce simp: tlb_insert_def)
      then show ?thesis by auto
    next
      case None
      from assms False n1 None
      have "e \<in> insert ((tb ! lru_victim (map last_used tb))
                \<lparr>valid := 1, vpn := v, frame_index := f, last_used := t\<rparr>) (set tb)"
        using set_update_subset_insert by (fastforce simp: tlb_insert_def Let_def)
      then show ?thesis by auto
    qed
  qed
qed

lemma tlb_insert_consistent:
  assumes c: "tlb_consistent frs tb" and i: "i < length frs" "frs ! i = v" "v \<noteq> - 1"
  shows "tlb_consistent frs (tlb_insert tb v (int i) t)"
  unfolding tlb_consistent_def
proof (intro ballI impI)
  fix e assume e: "e \<in> set (tlb_insert tb v (int i) t)" "valid e \<noteq> 0"
  from tlb_insert_mem [OF e(1)] show "0 \<le> frame_index e \<and> frame_index e < int (length frs)
        \<and> frs ! nat (frame_index e) = vpn e \<and> vpn e \<noteq> - 1"
  proof
    assume "e \<in> set tb"
    with c e(2) show ?thesis by (simp add: tlb_consistent_def)
  next
    assume "vpn e = v \<and> frame_index e = int i"
    with i show ?thesis by simp
  qed
qed

lemma tlb_invalidate_vpn_mem:
  assumes "e \<in> set (tlb_invalidate_vpn tb v)" "valid e \<noteq> 0"
  shows "e \<in> set tb \<and> vpn e \<noteq> v"
  using assms by (auto simp: tlb_invalidate_vpn_def split: if_splits)

lemma tlb_invalidate_vpn_consistent:
  "tlb_consistent frs tb \<Longrightarrow> tlb_consistent frs (tlb_invalidate_vpn tb v)"
  unfolding tlb_consistent_def using tlb_invalidate_vpn_mem by blast

lemma tlb_consistent_update:
  assumes c: "tlb_consistent frs tb"
    and n: "\<forall>e\<in>set tb. valid e \<noteq> 0 \<longrightarrow> vpn e \<noteq> frs ! k"
  shows "tlb_consistent (frs[k := v]) tb"
  unfolding tlb_consistent_def
proof (intro ballI impI)
  fix e assume e: "e \<in> set tb" "valid e \<noteq> 0"
  with c have h: "0 \<le> frame_index e" "frame_index e < int (length frs)"
    "frs ! nat (frame_index e) = vpn e" "vpn e \<noteq> - 1"
    by (auto simp: tlb_consistent_def)
  from n e have "vpn e \<noteq> frs ! k" by simp
  with h(3) have "nat (frame_index e) \<noteq> k" by auto
  with h show "0 \<le> frame_index e \<and> frame_index e < int (length (frs[k := v]))
        \<and> frs[k := v] ! nat (frame_index e) = vpn e \<and> vpn e \<noteq> - 1"
    by simp
qed

lemma resident_update_set:
  "set (resident (frs[k := v])) \<subseteq> insert v (set (resident frs))"
  using set_update_subset_insert [of frs k v] by (auto simp: resident_def)

lemma no_dup_update:
  "no_dup frs \<Longrightarrow> v \<notin> set frs \<Longrightarrow> no_dup (frs[k := v])"
proof (induction frs arbitrary: k)
  case Nil
  then show ?case by (simp add: no_dup_def resident_def)
next
  case (Cons x xs)
  show ?case
  proof (cases k)
    case 0
    with Cons.prems show ?thesis by (auto simp: no_dup_def resident_def split: if_splits)
  next
    case (Suc m)
    from Cons.prems have "no_dup xs" "v \<notin> set xs" by (auto simp: no_dup_def resident_def split: if_splits)
    then have ih: "no_dup (xs[m := v])" by (rule Cons.IH)
    have "x \<noteq> - 1 \<Longrightarrow> x \<notin> set (resident (xs[m := v]))"
      using resident_update_set [of xs m v] Cons.prems by (auto simp: no_dup_def resident_def)
    with ih Suc show ?thesis by (auto simp: no_dup_def resident_def)
  qed
qed

section \<open>Lemmas on the CLOCK scan\<close>

declare clock_scan.simps [simp del]

lemma nonzero_card_update:
  assumes "hand < length rb" "rb ! hand \<noteq> 0"
  shows "Suc (card {i. i < length rb \<and> rb[hand := (0::32 word)] ! i \<noteq> 0})
           = card {i. i < length rb \<and> rb ! i \<noteq> 0}"
proof -
  have e: "{i. i < length rb \<and> rb[hand := 0] ! i \<noteq> 0} = {i. i < length rb \<and> rb ! i \<noteq> 0} - {hand}"
    using assms by (auto simp: nth_list_update)
  have m: "hand \<in> {i. i < length rb \<and> rb ! i \<noteq> 0}" using assms by simp
  have f: "finite {i. i < length rb \<and> rb ! i \<noteq> 0}" by simp
  show ?thesis
    unfolding e by (rule card_Suc_Diff1 [OF f m])
qed

lemma clock_scan_total:
  "length rb = n \<Longrightarrow> hand < n \<Longrightarrow>
   \<exists>victim rb' hand' k'. clock_scan rb hand n k = Some (victim, rb', hand', k')
      \<and> victim < n \<and> length rb' = n \<and> hand' < n \<and> rb' ! victim = 0
      \<and> hand' = (victim + 1) mod n
      \<and> Suc k \<le> k' \<and> k' \<le> Suc (k + card {i. i < length rb \<and> rb ! i \<noteq> 0})"
proof (induction rb hand n k rule: clock_scan.induct)
  case (1 rb hand n k)
  from "1.prems" have h: "hand < length rb" by simp
  show ?case
  proof (cases "rb ! hand = 0")
    case True
    with h "1.prems" show ?thesis
      by (subst clock_scan.simps) simp
  next
    case False
    have l: "length (rb[hand := 0]) = n" using "1.prems" by simp
    have m: "(hand + 1) mod n < n" using "1.prems" by simp
    from "1.IH" [OF h False l m]
    obtain victim rb' hand' k' where r:
      "clock_scan (rb[hand := 0]) ((hand + 1) mod n) n (Suc k) = Some (victim, rb', hand', k')"
      "victim < n" "length rb' = n" "hand' < n" "rb' ! victim = 0" "hand' = (victim + 1) mod n"
      "Suc (Suc k) \<le> k'"
      "k' \<le> Suc (Suc k + card {i. i < length (rb[hand := 0]) \<and> rb[hand := 0] ! i \<noteq> 0})"
      by blast
    from r(8) nonzero_card_update [OF h False]
    have b: "k' \<le> Suc (k + card {i. i < length rb \<and> rb ! i \<noteq> 0})" by simp
    have "clock_scan rb hand n k = Some (victim, rb', hand', k')"
      using h False r(1) by (subst clock_scan.simps) simp
    with r b show ?thesis by simp
  qed
qed

lemma mod_shift_inj:
  assumes "t < j" "j < (n::nat)"
  shows "(h0 + j) mod n \<noteq> (h0 + t) mod n"
proof
  assume "(h0 + j) mod n = (h0 + t) mod n"
  then have "n dvd (h0 + j) - (h0 + t)"
    using mod_eq_dvd_iff_nat [of "h0 + t" "h0 + j" n] assms by simp
  then have "n dvd j - t" by simp
  moreover have "0 < j - t" "j - t < n" using assms by simp_all
  ultimately show False using dvd_imp_le [of n "j - t"] by simp
qed

lemma mod_shift_surj:
  assumes "i < (n::nat)" "h0 < n"
  shows "\<exists>t<n. i = (h0 + t) mod n"
proof (intro exI conjI)
  show "(i + n - h0) mod n < n" using assms by simp
  have "(h0 + (i + n - h0) mod n) mod n = (h0 + (i + n - h0)) mod n"
    by (simp add: mod_add_right_eq)
  also have "\<dots> = (i + n) mod n" using assms by simp
  also have "\<dots> = i" using assms by simp
  finally show "i = (h0 + (i + n - h0) mod n) mod n" by simp
qed

lemma clock_scan_sweep:
  assumes "h0 < n" "length rb = n" "j \<le> n"
    and "\<forall>i<n. rb ! i = 0 \<longleftrightarrow> (\<exists>t<j. i = (h0 + t) mod n)"
  shows "clock_scan rb ((h0 + j) mod n) n k = Some (h0, replicate n 0, (h0 + 1) mod n, Suc (k + (n - j)))"
  using assms
proof (induction "n - j" arbitrary: j rb k)
  case 0
  then have jn: "j = n" by simp
  have z: "\<forall>i<n. rb ! i = 0"
    using "0.prems"(4) mod_shift_surj [OF _ "0.prems"(1)] jn by blast
  then have rb: "rb = replicate n 0"
    using "0.prems"(2) by (simp add: list_eq_iff_nth_eq)
  have hd: "(h0 + j) mod n = h0" using jn "0.prems"(1) by simp
  show ?case
    unfolding hd using "0.prems"(1) rb jn by (subst clock_scan.simps) simp
next
  case (Suc m)
  then have jn: "j < n" by simp
  let ?h = "(h0 + j) mod n"
  have hl: "?h < length rb" using Suc.prems jn by simp
  have nz: "rb ! ?h \<noteq> 0"
  proof
    assume "rb ! ?h = 0"
    with Suc.prems(4) hl Suc.prems(2) obtain t where "t < j" "?h = (h0 + t) mod n" by blast
    with mod_shift_inj [OF _ jn] show False by blast
  qed
  have m: "m = n - Suc j" using Suc.hyps(2) by simp
  have l: "length (rb[?h := 0]) = n" using Suc.prems by simp
  have c: "\<forall>i<n. rb[?h := 0] ! i = 0 \<longleftrightarrow> (\<exists>t<Suc j. i = (h0 + t) mod n)"
  proof (intro allI impI)
    fix i assume i: "i < n"
    show "rb[?h := 0] ! i = 0 \<longleftrightarrow> (\<exists>t<Suc j. i = (h0 + t) mod n)"
    proof (cases "i = ?h")
      case True
      then show ?thesis using hl by auto
    next
      case False
      then have "rb[?h := 0] ! i = rb ! i" by simp
      moreover have "(\<exists>t<Suc j. i = (h0 + t) mod n) \<longleftrightarrow> (\<exists>t<j. i = (h0 + t) mod n)"
        using False by (simp add: less_Suc_eq) blast
      ultimately show ?thesis using Suc.prems(4) i by simp
    qed
  qed
  have sj: "Suc j \<le> n" using jn by simp
  have nh: "(?h + 1) mod n = (h0 + Suc j) mod n"
    by (simp add: mod_Suc_eq)
  from Suc.hyps(1) [OF m Suc.prems(1) l sj c, of "Suc k"]
  have "clock_scan (rb[?h := 0]) ((?h + 1) mod n) n (Suc k)
          = Some (h0, replicate n 0, (h0 + 1) mod n, Suc (Suc k + (n - Suc j)))"
    unfolding nh .
  moreover have "Suc (Suc k + (n - Suc j)) = Suc (k + (n - j))" using jn by simp
  ultimately show ?case using hl nz by (subst clock_scan.simps) simp
qed

lemma clock_scan_all_set:
  assumes "hand < n" "length rb = n" "\<forall>b\<in>set rb. b \<noteq> 0"
  shows "clock_scan rb hand n k = Some (hand, replicate n 0, (hand + 1) mod n, Suc (k + n))"
proof -
  have "\<forall>i<n. rb ! i = 0 \<longleftrightarrow> (\<exists>t<0. i = (hand + t) mod n)"
    using assms by simp
  from clock_scan_sweep [OF assms(1,2) _ this, of k] assms(1) show ?thesis by simp
qed

section \<open>One record keeps a well-formed state well-formed\<close>

lemma touch_frame_fields [simp]:
  "frames (touch_frame cfg opc i s) = frames s"
  "tlb (touch_frame cfg opc i s) = tlb s"
  "tick (touch_frame cfg opc i s) = tick s"
  "fifo_index (touch_frame cfg opc i s) = fifo_index s"
  "clock_hand (touch_frame cfg opc i s) = clock_hand s"
  "write_backs (touch_frame cfg opc i s) = write_backs s"
  "page_faults (touch_frame cfg opc i s) = page_faults s"
  "reads (touch_frame cfg opc i s) = reads s"
  "writes (touch_frame cfg opc i s) = writes s"
  "tlb_hits (touch_frame cfg opc i s) = tlb_hits s"
  "tlb_misses (touch_frame cfg opc i s) = tlb_misses s"
  "length (frame_last_used (touch_frame cfg opc i s)) = length (frame_last_used s)"
  "length (ref_bits (touch_frame cfg opc i s)) = length (ref_bits s)"
  "length (dirty (touch_frame cfg opc i s)) = length (dirty s)"
  by (simp_all add: touch_frame_def)

lemma touch_frame_dirty:
  "dirty (touch_frame cfg opc i s) =
     (if opc = CHR ''W'' \<and> write_policy cfg = WP_WRITE_BACK then (dirty s)[i := 1] else dirty s)"
  by (simp add: touch_frame_def)

lemma touch_frame_last_used:
  "frame_last_used (touch_frame cfg opc i s) =
     (if alg cfg = ALG_LRU then (frame_last_used s)[i := tick s] else frame_last_used s)"
  by (simp add: touch_frame_def)

lemma touch_frame_clean:
  "write_policy cfg = WP_WRITE_THROUGH \<Longrightarrow> all_clean s \<Longrightarrow> all_clean (touch_frame cfg opc i s)"
  by (simp add: all_clean_def touch_frame_dirty)

lemma touch_frame_ok:
  assumes "state_ok cfg s"
  shows "state_ok cfg (touch_frame cfg opc i s)"
  using assms touch_frame_clean [of cfg s opc i]
  by (simp add: state_ok_def arrays_ok_def)

lemma evict_victim_fields [simp]:
  "frames (evict_victim cfg k s) = frames s"
  "tick (evict_victim cfg k s) = tick s"
  "fifo_index (evict_victim cfg k s) = fifo_index s"
  "clock_hand (evict_victim cfg k s) = clock_hand s"
  "frame_last_used (evict_victim cfg k s) = frame_last_used s"
  "ref_bits (evict_victim cfg k s) = ref_bits s"
  "page_faults (evict_victim cfg k s) = page_faults s"
  "reads (evict_victim cfg k s) = reads s"
  "writes (evict_victim cfg k s) = writes s"
  "tlb_hits (evict_victim cfg k s) = tlb_hits s"
  "tlb_misses (evict_victim cfg k s) = tlb_misses s"
  "length (dirty (evict_victim cfg k s)) = length (dirty s)"
  "length (tlb (evict_victim cfg k s)) = length (tlb s)"
  by (simp_all add: evict_victim_def Let_def)

lemma evict_victim_tlb:
  "tlb (evict_victim cfg k s) =
     (if frames s ! k \<noteq> - 1 \<and> 0 < tlb_size cfg
      then tlb_invalidate_vpn (tlb s) (frames s ! k) else tlb s)"
  by (simp add: evict_victim_def Let_def)

lemma evict_victim_dirty:
  "dirty (evict_victim cfg k s) =
     (if frames s ! k \<noteq> - 1 \<and> write_policy cfg = WP_WRITE_BACK \<and> dirty s ! k \<noteq> 0
      then (dirty s)[k := 0] else dirty s)"
  by (auto simp: evict_victim_def Let_def)

lemma evict_victim_write_backs:
  "write_backs (evict_victim cfg k s) =
     (if frames s ! k \<noteq> - 1 \<and> write_policy cfg = WP_WRITE_BACK \<and> dirty s ! k \<noteq> 0
      then write_backs s + 1 else write_backs s)"
  by (auto simp: evict_victim_def Let_def)

lemma install_page_fields [simp]:
  "frames (install_page cfg opc v k s) = (frames s)[k := v]"
  "tick (install_page cfg opc v k s) = tick s"
  "fifo_index (install_page cfg opc v k s) = fifo_index s"
  "clock_hand (install_page cfg opc v k s) = clock_hand s"
  "write_backs (install_page cfg opc v k s) = write_backs s"
  "page_faults (install_page cfg opc v k s) = page_faults s"
  "reads (install_page cfg opc v k s) = reads s"
  "writes (install_page cfg opc v k s) = writes s"
  "tlb_hits (install_page cfg opc v k s) = tlb_hits s"
  "tlb_misses (install_page cfg opc v k s) = tlb_misses s"
  "length (frame_last_used (install_page cfg opc v k s)) = length (frame_last_used s)"
  "length (ref_bits (install_page cfg opc v k s)) = length (ref_bits s)"
  "length (dirty (install_page cfg opc v k s)) = length (dirty s)"
  "length (tlb (install_page cfg opc v k s)) = length (tlb s)"
  by (simp_all add: install_page_def Let_def)

lemma install_page_tlb:
  "tlb (install_page cfg opc v k s) =
     (if 0 < tlb_size cfg then tlb_insert (tlb s) v (int k) (tick s) else tlb s)"
  by (simp add: install_page_def Let_def)

lemma install_page_dirty:
  "dirty (install_page cfg opc v k s) =
     (if opc = CHR ''W'' \<and> write_policy cfg = WP_WRITE_BACK then (dirty s)[k := 1] else dirty s)"
  by (simp add: install_page_def Let_def touch_frame_dirty)

lemma install_page_last_used:
  "frame_last_used (install_page cfg opc v k s) =
     (if alg cfg = ALG_LRU then (frame_last_used s)[k := tick s] else frame_last_used s)"
  by (simp add: install_page_def Let_def touch_frame_last_used)

text \<open>What the choice of a victim leaves unchanged, and where the victim lies.\<close>

lemma choose_victim_ok:
  assumes c: "cfg_ok cfg" and a: "arrays_ok cfg s"
  shows "\<exists>victim s1. choose_victim cfg s = Some (victim, s1) \<and> victim < num_frames cfg
           \<and> arrays_ok cfg s1 \<and> frames s1 = frames s \<and> tlb s1 = tlb s \<and> dirty s1 = dirty s
           \<and> write_backs s1 = write_backs s \<and> tick s1 = tick s
           \<and> frame_last_used s1 = frame_last_used s \<and> page_faults s1 = page_faults s
           \<and> reads s1 = reads s \<and> writes s1 = writes s \<and> tlb_hits s1 = tlb_hits s
           \<and> tlb_misses s1 = tlb_misses s"
proof (cases "first_index (\<lambda>x. x = - 1) (frames s)")
  case (Some i)
  from first_index_Some [OF Some] a have "i < num_frames cfg" by (simp add: arrays_ok_def)
  with Some a show ?thesis by (simp add: choose_victim_def)
next
  case None
  show ?thesis
  proof (cases "alg cfg")
    case ALG_FIFO
    with None a c show ?thesis
      by (simp add: choose_victim_def arrays_ok_def cfg_ok_def)
  next
    case ALG_LRU
    from a c have "frame_last_used s \<noteq> []" by (auto simp: arrays_ok_def cfg_ok_def)
    from lru_victim_min(1) [OF this] a have "lru_victim (frame_last_used s) < num_frames cfg"
      by (simp add: arrays_ok_def)
    with ALG_LRU None a show ?thesis by (simp add: choose_victim_def)
  next
    case ALG_CLOCK
    from a have l: "length (ref_bits s) = num_frames cfg" and h: "clock_hand s < num_frames cfg"
      by (simp_all add: arrays_ok_def)
    from clock_scan_total [OF l h, of 0]
    obtain victim rb hand k where r:
      "clock_scan (ref_bits s) (clock_hand s) (num_frames cfg) 0 = Some (victim, rb, hand, k)"
      "victim < num_frames cfg" "length rb = num_frames cfg" "hand < num_frames cfg"
      by blast
    with ALG_CLOCK None a show ?thesis
      by (simp add: choose_victim_def arrays_ok_def)
  qed
qed

lemma not_resident_no_tlb:
  assumes "tlb_consistent frs tb" "v \<notin> set frs"
  shows "\<forall>e\<in>set tb. valid e \<noteq> 0 \<longrightarrow> vpn e \<noteq> v"
proof (intro ballI impI)
  fix e assume "e \<in> set tb" "valid e \<noteq> 0"
  with assms(1) have "0 \<le> frame_index e" "frame_index e < int (length frs)"
    "frs ! nat (frame_index e) = vpn e"
    by (auto simp: tlb_consistent_def)
  then have "vpn e \<in> set frs" by (metis nat_less_iff nth_mem)
  with assms(2) show "vpn e \<noteq> v" by auto
qed

lemma page_fault_ok:
  assumes c: "cfg_ok cfg" and ok: "state_ok cfg s" and nr: "v \<notin> set (frames s)"
    and nm: "v \<noteq> - 1"
  shows "\<exists>s'. page_fault cfg opc v s = Some s' \<and> state_ok cfg s'"
proof -
  let ?s0 = "s\<lparr>page_faults := page_faults s + 1\<rparr>"
  from ok have a0: "arrays_ok cfg ?s0" by (simp add: state_ok_def arrays_ok_def)
  from choose_victim_ok [OF c a0] obtain k s1 where ch:
    "choose_victim cfg ?s0 = Some (k, s1)" "k < num_frames cfg" "arrays_ok cfg s1"
    "frames s1 = frames s" "tlb s1 = tlb s" "dirty s1 = dirty s"
    by auto
  let ?s2 = "evict_victim cfg k s1"
  let ?s3 = "install_page cfg opc v k ?s2"
  from ch have pf: "page_fault cfg opc v s = Some ?s3"
    by (simp add: page_fault_def arrays_ok_def)
  from ok ch have cons: "tlb_consistent (frames s) (tlb s)" and nd: "no_dup (frames s)"
    by (simp_all add: state_ok_def)
  have arr: "arrays_ok cfg ?s3" using ch(3) by (simp add: arrays_ok_def)
  have nd3: "no_dup (frames ?s3)" using nd nr ch(4) by (simp add: no_dup_update)
  have tl2: "tlb_consistent (frames s) (tlb ?s2)"
    using cons ch(4,5) by (simp add: evict_victim_tlb tlb_invalidate_vpn_consistent)
  have away: "\<forall>e\<in>set (tlb ?s2). valid e \<noteq> 0 \<longrightarrow> vpn e \<noteq> frames s ! k"
  proof (cases "frames s ! k = - 1")
    case True
    with tl2 show ?thesis by (auto simp: tlb_consistent_def)
  next
    case False
    show ?thesis
    proof (cases "0 < tlb_size cfg")
      case True
      with False ch(4,5) show ?thesis
        using tlb_invalidate_vpn_mem by (auto simp: evict_victim_tlb)
    next
      case False
      with ch(3) have "tlb s1 = []" by (simp add: arrays_ok_def)
      then show ?thesis by (simp add: evict_victim_tlb tlb_invalidate_vpn_def)
    qed
  qed
  have tl2': "tlb_consistent ((frames s)[k := v]) (tlb ?s2)"
    by (rule tlb_consistent_update [OF tl2 away])
  have kl: "k < length ((frames s)[k := v])" using ch(2,3,4) by (simp add: arrays_ok_def)
  have tl3: "tlb_consistent (frames ?s3) (tlb ?s3)"
    using tl2' tlb_insert_consistent [OF tl2' kl _ nm] kl
    by (simp add: install_page_tlb ch(4))
  have cl: "write_policy cfg = WP_WRITE_THROUGH \<longrightarrow> all_clean ?s3"
    using ok ch(6) by (simp add: state_ok_def all_clean_def install_page_dirty evict_victim_dirty)
  from arr nd3 tl3 cl have "state_ok cfg ?s3" by (simp add: state_ok_def)
  with pf show ?thesis by simp
qed

lemma resolve_ok:
  assumes c: "cfg_ok cfg" and ok: "state_ok cfg s" and nm: "v \<noteq> - 1"
  shows "\<exists>s'. resolve cfg opc v s = Some s' \<and> state_ok cfg s'"
proof (cases "first_index (\<lambda>x. x = v) (frames s)")
  case None
  then have "v \<notin> set (frames s)" by (auto simp: first_index_None)
  from page_fault_ok [OF c ok this nm, of opc] None show ?thesis
    by (simp add: resolve_def)
next
  case (Some i)
  from first_index_Some [OF Some] have i: "i < length (frames s)" "frames s ! i = v" by simp_all
  let ?s1 = "touch_frame cfg opc i s"
  have ok1: "state_ok cfg ?s1" by (rule touch_frame_ok [OF ok])
  then have "tlb_consistent (frames s) (tlb s)" by (simp add: state_ok_def)
  from tlb_insert_consistent [OF this i nm] ok1
  have "state_ok cfg (?s1\<lparr>tlb := tlb_insert (tlb ?s1) v (int i) (tick ?s1)\<rparr>)"
    by (simp add: state_ok_def arrays_ok_def all_clean_def)
  with ok1 Some show ?thesis by (simp add: resolve_def Let_def)
qed

lemma access_ok:
  assumes c: "cfg_ok cfg" and ok: "state_ok cfg s"
  shows "\<exists>s'. access cfg opc addr s = Some s' \<and> state_ok cfg s'"
proof -
  let ?v = "addr div PAGE_SIZE"
  have nm: "?v \<noteq> - 1" by (rule vpn_not_marker)
  show ?thesis
  proof (cases "0 < tlb_size cfg")
    case False
    with resolve_ok [OF c ok nm, of opc] show ?thesis by (simp add: access_def Let_def)
  next
    case True
    show ?thesis
    proof (cases "tlb_lookup (tlb s) ?v (tick s)")
      case None
      from ok have "state_ok cfg (s\<lparr>tlb_misses := tlb_misses s + 1\<rparr>)"
        by (simp add: state_ok_def arrays_ok_def all_clean_def)
      from resolve_ok [OF c this nm, of opc] None True show ?thesis
        by (simp add: access_def Let_def)
    next
      case (Some r)
      then obtain tb fi where r: "tlb_lookup (tlb s) ?v (tick s) = Some (tb, fi)"
        by (cases r) auto
      from ok have "tlb_consistent (frames s) (tlb s)" by (simp add: state_ok_def)
      from tlb_lookup_consistent [OF this r] tlb_lookup_length [OF r] ok
      have ok1: "state_ok cfg (s\<lparr>tlb := tb, tlb_hits := tlb_hits s + 1\<rparr>)"
        by (simp add: state_ok_def arrays_ok_def all_clean_def)
      from touch_frame_ok [OF ok1] ok1 r True show ?thesis
        by (simp add: access_def Let_def)
    qed
  qed
qed

lemma process_record_ok:
  assumes c: "cfg_ok cfg" and ok: "state_ok cfg s"
  shows "\<exists>s'. process_record cfg s r = Some s' \<and> state_ok cfg s'"
proof -
  let ?s1 = "s\<lparr>tick := tick s + 1\<rparr>"
  from ok have ok1: "state_ok cfg ?s1" by (simp add: state_ok_def arrays_ok_def all_clean_def)
  then have okr: "state_ok cfg (?s1\<lparr>reads := reads ?s1 + 1\<rparr>)"
    and okw: "state_ok cfg (?s1\<lparr>writes := writes ?s1 + 1\<rparr>)"
    by (simp_all add: state_ok_def arrays_ok_def all_clean_def)
  from access_ok [OF c okr] access_ok [OF c okw] ok1 show ?thesis
    by (simp add: process_record_def Let_def)
qed

lemma run_trace_ok:
  "cfg_ok cfg \<Longrightarrow> state_ok cfg s \<Longrightarrow> \<exists>s'. run_trace cfg s recs = Some s' \<and> state_ok cfg s'"
proof (induction recs arbitrary: s)
  case Nil
  then show ?case by simp
next
  case (Cons r recs)
  from process_record_ok [OF Cons.prems, of r] obtain s1 where
    s1: "process_record cfg s r = Some s1" "state_ok cfg s1" by blast
  from Cons.IH [OF Cons.prems(1) s1(2)] s1(1) show ?case by simp
qed

lemma init_state_ok: "cfg_ok cfg \<Longrightarrow> state_ok cfg (init_state cfg)"
  by (simp add: state_ok_def arrays_ok_def cfg_ok_def init_state_def no_dup_def resident_def
      tlb_consistent_def all_clean_def)

lemma simulate_ok:
  "cfg_ok cfg \<Longrightarrow> \<exists>s. simulate cfg recs = Some s \<and> state_ok cfg s"
  unfolding simulate_def by (rule run_trace_ok [OF _ init_state_ok])

lemma run_trace_append:
  "run_trace cfg s (xs @ ys) =
     (case run_trace cfg s xs of None \<Rightarrow> None | Some s1 \<Rightarrow> run_trace cfg s1 ys)"
  by (induction xs arbitrary: s) (auto split: option.splits)

lemma first_index_eq_Some:
  assumes "i < length xs" "P (xs ! i)" "\<forall>j<i. \<not> P (xs ! j)"
  shows "first_index P xs = Some i"
proof (cases "first_index P xs")
  case None
  with assms(1,2) show ?thesis by (simp add: first_index_None)
next
  case (Some k)
  from first_index_Some [OF Some] have k: "k < length xs" "P (xs ! k)" "\<forall>j<k. \<not> P (xs ! j)"
    by simp_all
  from k(2) assms(3) have "\<not> k < i" by blast
  moreover from assms(2) k(3) have "\<not> i < k" by blast
  ultimately show ?thesis using Some by simp
qed

lemma TLBEntry_overwrite:
  "(e :: TLBEntry)\<lparr>valid := a, vpn := b, frame_index := c, last_used := d\<rparr>
     = \<lparr>valid = a, vpn = b, frame_index = c, last_used = d\<rparr>"
  by (cases e) simp

lemma lru2_run:
  "simulate (lru2 2) [(CHR ''W'', 0x0000), (CHR ''R'', 0x1000)]
     = Some \<lparr>reads = 1, writes = 1, page_faults = 2, tlb_hits = 0, tlb_misses = 2,
            write_backs = 0, frames = [0, 1], frame_last_used = [1, 2], ref_bits = [0, 0],
            dirty = [1, 0], fifo_index = 0, clock_hand = 0, tick = 2,
            tlb = [\<lparr>valid = 1, vpn = 0, frame_index = 0, last_used = 1\<rparr>,
                   \<lparr>valid = 1, vpn = 1, frame_index = 1, last_used = 2\<rparr>]\<rparr>"
  by code_simp

lemma lru2_run_evict:
  "simulate (lru2 2) [(CHR ''W'', 0x0000), (CHR ''R'', 0x1000), (CHR ''R'', 0x2000)]
     = Some \<lparr>reads = 2, writes = 1, page_faults = 3, tlb_hits = 0, tlb_misses = 3,
            write_backs = 1, frames = [2, 1], frame_last_used = [3, 2], ref_bits = [0, 0],
            dirty = [0, 0], fifo_index = 0, clock_hand = 0, tick = 3,
            tlb = [\<lparr>valid = 1, vpn = 2, frame_index = 0, last_used = 3\<rparr>,
                   \<lparr>valid = 1, vpn = 1, frame_index = 1, last_used = 2\<rparr>]\<rparr>"
  by code_simp

lemma lru2_ok: "cfg_ok (lru2 n)"
  by (simp add: cfg_ok_def lru2_def)

lemma no_dup_nth:
  "no_dup frs \<Longrightarrow> i < length frs \<Longrightarrow> j < length frs \<Longrightarrow> frs ! i = frs ! j
     \<Longrightarrow> frs ! i \<noteq> - 1 \<Longrightarrow> i = j"
proof (induction frs arbitrary: i j)
  case Nil
  then show ?case by simp
next
  case (Cons x xs)
  have nd: "no_dup xs" using Cons.prems(1) by (auto simp: no_dup_def resident_def split: if_splits)
  have fresh: "x \<noteq> - 1 \<Longrightarrow> x \<notin> set xs"
    using Cons.prems(1) by (auto simp: no_dup_def resident_def)
  show ?case
  proof (cases i)
    case 0
    note i0 = 0
    show ?thesis
    proof (cases j)
      case 0
      with i0 show ?thesis by simp
    next
      case (Suc m)
      with i0 Cons.prems have "x = xs ! m" "m < length xs" "x \<noteq> - 1" by simp_all
      with fresh show ?thesis by auto
    qed
  next
    case (Suc n)
    note iS = Suc
    show ?thesis
    proof (cases j)
      case 0
      with iS Cons.prems have "x = xs ! n" "n < length xs" "x \<noteq> - 1" by simp_all
      with fresh show ?thesis by auto
    next
      case (Suc m)
      with iS Cons.prems have "n < length xs" "m < length xs" "xs ! n = xs ! m" "xs ! n \<noteq> - 1"
        by simp_all
      from Cons.IH [OF nd this] iS Suc show ?thesis by simp
    qed
  qed
qed

lemma choose_victim_keeps:
  assumes "choose_victim cfg s = Some (k, s1)"
  shows "frames s1 = frames s" "dirty s1 = dirty s" "tlb s1 = tlb s"
    "write_backs s1 = write_backs s" "page_faults s1 = page_faults s" "tick s1 = tick s"
    "frame_last_used s1 = frame_last_used s"
  using assms by (auto simp: choose_victim_def split: option.splits Algorithm.splits)

lemma page_fault_Some:
  assumes "page_fault cfg opc v s = Some s'"
  shows "\<exists>k s1. choose_victim cfg (s\<lparr>page_faults := page_faults s + 1\<rparr>) = Some (k, s1)
           \<and> k < num_frames cfg \<and> k < length (frames s) \<and> k < length (dirty s)
           \<and> s' = install_page cfg opc v k (evict_victim cfg k s1)"
proof -
  from assms obtain k s1 where ch:
    "choose_victim cfg (s\<lparr>page_faults := page_faults s + 1\<rparr>) = Some (k, s1)"
    and r: "k < num_frames cfg \<and> k < length (frames s1) \<and> k < length (dirty s1)"
      "s' = install_page cfg opc v k (evict_victim cfg k s1)"
    by (auto simp: page_fault_def split: option.splits if_splits)
  from choose_victim_keeps(1,2) [OF ch] r ch show ?thesis by simp
qed

lemma resolve_frames:
  assumes "resolve cfg opc v s = Some s'"
  shows "frames s' = frames s
         \<or> (\<exists>k<length (frames s). frames s' = (frames s)[k := v] \<and> v \<notin> set (frames s))"
proof (cases "first_index (\<lambda>x. x = v) (frames s)")
  case (Some i)
  with assms show ?thesis by (auto simp: resolve_def Let_def)
next
  case None
  then have nr: "v \<notin> set (frames s)" by (auto simp: first_index_None)
  from None assms have "page_fault cfg opc v s = Some s'" by (simp add: resolve_def)
  from page_fault_Some [OF this] obtain k s1 where
    k: "choose_victim cfg (s\<lparr>page_faults := page_faults s + 1\<rparr>) = Some (k, s1)"
      "k < length (frames s)" "s' = install_page cfg opc v k (evict_victim cfg k s1)"
    by blast
  from choose_victim_keeps(1) [OF k(1)] k(3) have "frames s' = (frames s)[k := v]" by simp
  with nr k(2) show ?thesis by blast
qed

lemma access_frames:
  assumes "access cfg opc addr s = Some s'"
  shows "frames s' = frames s
         \<or> (\<exists>k<length (frames s). frames s' = (frames s)[k := addr div PAGE_SIZE]
               \<and> addr div PAGE_SIZE \<notin> set (frames s))"
proof (cases "0 < tlb_size cfg")
  case False
  with assms resolve_frames [of cfg opc "addr div PAGE_SIZE" s s'] show ?thesis
    by (simp add: access_def Let_def)
next
  case True
  show ?thesis
  proof (cases "tlb_lookup (tlb s) (addr div PAGE_SIZE) (tick s)")
    case None
    with True assms
      resolve_frames [of cfg opc "addr div PAGE_SIZE" "s\<lparr>tlb_misses := tlb_misses s + 1\<rparr>" s']
    show ?thesis by (simp add: access_def Let_def)
  next
    case (Some r)
    with True assms have "frames s' = frames s"
      by (cases r) (auto simp: access_def Let_def split: if_splits)
    then show ?thesis by simp
  qed
qed

lemma process_record_frames:
  assumes "process_record cfg s r = Some s'"
  shows "frames s' = frames s
         \<or> (\<exists>k<length (frames s). frames s' = (frames s)[k := snd r div PAGE_SIZE]
               \<and> snd r div PAGE_SIZE \<notin> set (frames s))"
proof -
  let ?s1 = "s\<lparr>tick := tick s + 1\<rparr>"
  consider "fst r = CHR ''R''" | "fst r \<noteq> CHR ''R''" "fst r = CHR ''W''"
    | "fst r \<noteq> CHR ''R''" "fst r \<noteq> CHR ''W''" by blast
  then show ?thesis
  proof cases
    case 1
    with assms access_frames [of cfg "fst r" "snd r" "?s1\<lparr>reads := reads ?s1 + 1\<rparr>" s']
    show ?thesis by (simp add: process_record_def Let_def)
  next
    case 2
    with assms access_frames [of cfg "fst r" "snd r" "?s1\<lparr>writes := writes ?s1 + 1\<rparr>" s']
    show ?thesis by (simp add: process_record_def Let_def)
  next
    case 3
    with assms show ?thesis by (auto simp: process_record_def Let_def)
  qed
qed

lemma clock2_ok: "cfg_ok clock2"
  by (simp add: cfg_ok_def clock2_def)

lemma clock2_run_evict:
  "simulate clock2 [(CHR ''R'', 0x0000), (CHR ''R'', 0x1000), (CHR ''R'', 0x2000)]
     = Some \<lparr>reads = 3, writes = 0, page_faults = 3, tlb_hits = 0, tlb_misses = 3,
            write_backs = 0, frames = [2, 1], frame_last_used = [0, 0], ref_bits = [1, 0],
            dirty = [0, 0], fifo_index = 0, clock_hand = 1, tick = 3,
            tlb = [\<lparr>valid = 1, vpn = 2, frame_index = 0, last_used = 3\<rparr>,
                   \<lparr>valid = 1, vpn = 1, frame_index = 1, last_used = 2\<rparr>]\<rparr>"
  by code_simp

lemma clock2_step:
  "process_record clock2
      \<lparr>reads = 2, writes = 0, page_faults = 2, tlb_hits = 0, tlb_misses = 2,
            write_backs = 0, frames = [0, 1], frame_last_used = [0, 0], ref_bits = [1, 1],
            dirty = [0, 0], fifo_index = 0, clock_hand = 0, tick = 2,
            tlb = [\<lparr>valid = 1, vpn = 0, frame_index = 0, last_used = 1\<rparr>,
                   \<lparr>valid = 1, vpn = 1, frame_index = 1, last_used = 2\<rparr>]\<rparr>
      (CHR ''R'', 0x2000)
     = Some \<lparr>reads = 3, writes = 0, page_faults = 3, tlb_hits = 0, tlb_misses = 3,
            write_backs = 0, frames = [2, 1], frame_last_used = [0, 0], ref_bits = [1, 0],
            dirty = [0, 0], fifo_index = 0, clock_hand = 1, tick = 3,
            tlb = [\<lparr>valid = 1, vpn = 2, frame_index = 0, last_used = 3\<rparr>,
                   \<lparr>valid = 1, vpn = 1, frame_index = 1, last_used = 2\<rparr>]\<rparr>"
  by code_simp

lemma page_fault_write_backs:
  assumes pf: "page_fault cfg opc v s = Some s'" and nr: "v \<notin> set (frames s)"
  shows "write_backs s' = write_backs s
         \<or> (write_backs s' = write_backs s + 1 \<and> dirty_eviction cfg v s s')"
proof -
  from page_fault_Some [OF pf] obtain k s1 where
    k: "choose_victim cfg (s\<lparr>page_faults := page_faults s + 1\<rparr>) = Some (k, s1)"
      "k < length (frames s)" "s' = install_page cfg opc v k (evict_victim cfg k s1)"
    by blast
  note kp = choose_victim_keeps [OF k(1)]
  have fr: "frames s' = (frames s)[k := v]" using kp(1) k(3) by simp
  have pfc: "page_faults s' = page_faults s + 1" using kp(5) k(3) by simp
  have wb: "write_backs s' =
     (if frames s ! k \<noteq> - 1 \<and> write_policy cfg = WP_WRITE_BACK \<and> dirty s ! k \<noteq> 0
      then write_backs s + 1 else write_backs s)"
    using kp(1,2,4) k(3) by (simp add: evict_victim_write_backs)
  show ?thesis
  proof (cases "frames s ! k \<noteq> - 1 \<and> write_policy cfg = WP_WRITE_BACK \<and> dirty s ! k \<noteq> 0")
    case False
    with wb show ?thesis by simp
  next
    case True
    with fr pfc nr k(2) have "dirty_eviction cfg v s s'"
      unfolding dirty_eviction_def by blast
    with wb True show ?thesis by simp
  qed
qed

lemma dirty_eviction_cong:
  assumes "frames s0 = frames s" "dirty s0 = dirty s" "page_faults s0 = page_faults s"
  shows "dirty_eviction cfg v s0 s' = dirty_eviction cfg v s s'"
  using assms by (simp add: dirty_eviction_def)

lemma resolve_write_backs:
  assumes "resolve cfg opc v s = Some s'"
  shows "write_backs s' = write_backs s
         \<or> (write_backs s' = write_backs s + 1 \<and> dirty_eviction cfg v s s')"
proof (cases "first_index (\<lambda>x. x = v) (frames s)")
  case (Some i)
  with assms have "write_backs s' = write_backs s"
    by (auto simp: resolve_def Let_def split: if_splits)
  then show ?thesis by simp
next
  case None
  then have nr: "v \<notin> set (frames s)" by (auto simp: first_index_None)
  from None assms have "page_fault cfg opc v s = Some s'" by (simp add: resolve_def)
  from page_fault_write_backs [OF this nr] show ?thesis .
qed

lemma access_write_backs:
  assumes "access cfg opc addr s = Some s'"
  shows "write_backs s' = write_backs s
         \<or> (write_backs s' = write_backs s + 1 \<and> dirty_eviction cfg (addr div PAGE_SIZE) s s')"
proof (cases "0 < tlb_size cfg")
  case False
  with assms resolve_write_backs [of cfg opc "addr div PAGE_SIZE" s s'] show ?thesis
    by (simp add: access_def Let_def)
next
  case True
  show ?thesis
  proof (cases "tlb_lookup (tlb s) (addr div PAGE_SIZE) (tick s)")
    case None
    let ?s0 = "s\<lparr>tlb_misses := tlb_misses s + 1\<rparr>"
    have "dirty_eviction cfg (addr div PAGE_SIZE) ?s0 s' = dirty_eviction cfg (addr div PAGE_SIZE) s s'"
      by (rule dirty_eviction_cong) simp_all
    with None True assms resolve_write_backs [of cfg opc "addr div PAGE_SIZE" ?s0 s']
    show ?thesis by (simp add: access_def Let_def)
  next
    case (Some r)
    with True assms have "write_backs s' = write_backs s"
      by (cases r) (auto simp: access_def Let_def split: if_splits)
    then show ?thesis by simp
  qed
qed

lemma process_record_write_backs:
  assumes "process_record cfg s r = Some s'"
  shows "write_backs s' = write_backs s
         \<or> (write_backs s' = write_backs s + 1 \<and> dirty_eviction cfg (snd r div PAGE_SIZE) s s')"
proof -
  let ?s1 = "s\<lparr>tick := tick s + 1\<rparr>"
  let ?sr = "?s1\<lparr>reads := reads ?s1 + 1\<rparr>"
  let ?sw = "?s1\<lparr>writes := writes ?s1 + 1\<rparr>"
  have cr: "dirty_eviction cfg (snd r div PAGE_SIZE) ?sr s' = dirty_eviction cfg (snd r div PAGE_SIZE) s s'"
    by (rule dirty_eviction_cong) simp_all
  have cw: "dirty_eviction cfg (snd r div PAGE_SIZE) ?sw s' = dirty_eviction cfg (snd r div PAGE_SIZE) s s'"
    by (rule dirty_eviction_cong) simp_all
  consider "fst r = CHR ''R''" | "fst r \<noteq> CHR ''R''" "fst r = CHR ''W''"
    | "fst r \<noteq> CHR ''R''" "fst r \<noteq> CHR ''W''" by blast
  then show ?thesis
  proof cases
    case 1
    with assms access_write_backs [of cfg "fst r" "snd r" ?sr s'] cr
    show ?thesis by (simp add: process_record_def Let_def)
  next
    case 2
    with assms access_write_backs [of cfg "fst r" "snd r" ?sw s'] cw
    show ?thesis by (simp add: process_record_def Let_def)
  next
    case 3
    with assms show ?thesis by (auto simp: process_record_def Let_def)
  qed
qed

lemma run_trace_write_through:
  "write_policy cfg = WP_WRITE_THROUGH \<Longrightarrow> run_trace cfg s recs = Some s'
     \<Longrightarrow> write_backs s' = write_backs s"
proof (induction recs arbitrary: s)
  case Nil
  then show ?case by simp
next
  case (Cons r recs)
  from Cons.prems(2) obtain s1 where s1: "process_record cfg s r = Some s1"
    "run_trace cfg s1 recs = Some s'"
    by (auto split: option.splits)
  from process_record_write_backs [OF s1(1)] Cons.prems(1)
  have "write_backs s1 = write_backs s" by (auto simp: dirty_eviction_def)
  with Cons.IH [OF Cons.prems(1) s1(2)] show ?case by simp
qed

lemma lru2_step:
  "process_record (lru2 2)
      \<lparr>reads = 1, writes = 1, page_faults = 2, tlb_hits = 0, tlb_misses = 2,
            write_backs = 0, frames = [0, 1], frame_last_used = [1, 2], ref_bits = [0, 0],
            dirty = [1, 0], fifo_index = 0, clock_hand = 0, tick = 2,
            tlb = [\<lparr>valid = 1, vpn = 0, frame_index = 0, last_used = 1\<rparr>,
                   \<lparr>valid = 1, vpn = 1, frame_index = 1, last_used = 2\<rparr>]\<rparr>
      (CHR ''R'', 0x2000)
     = Some \<lparr>reads = 2, writes = 1, page_faults = 3, tlb_hits = 0, tlb_misses = 3,
            write_backs = 1, frames = [2, 1], frame_last_used = [3, 2], ref_bits = [0, 0],
            dirty = [0, 0], fifo_index = 0, clock_hand = 0, tick = 3,
            tlb = [\<lparr>valid = 1, vpn = 2, frame_index = 0, last_used = 3\<rparr>,
                   \<lparr>valid = 1, vpn = 1, frame_index = 1, last_used = 2\<rparr>]\<rparr>"
  by code_simp

lemma fifo2_ok: "cfg_ok (fifo2 wp)"
  by (simp add: cfg_ok_def fifo2_def)

lemma fifo2_writes_run:
  "simulate (fifo2 WP_WRITE_THROUGH) [(CHR ''W'', 0x0000), (CHR ''W'', 0x1000), (CHR ''W'', 0x2000)]
     = Some \<lparr>reads = 0, writes = 3, page_faults = 3, tlb_hits = 0, tlb_misses = 0,
            write_backs = 0, frames = [2, 1], frame_last_used = [0, 0], ref_bits = [0, 0],
            dirty = [0, 0], fifo_index = 1, clock_hand = 0, tick = 3, tlb = []\<rparr>"
  by code_simp

lemma page_fault_lru_stamp:
  assumes pf: "page_fault cfg opc v s = Some s'" and l: "alg cfg = ALG_LRU"
  shows "\<exists>i. i < num_frames cfg \<and> i < length (frames s) \<and> frames s' ! i = v
            \<and> frame_last_used s' = (frame_last_used s)[i := tick s] \<and> tick s' = tick s"
proof -
  from page_fault_Some [OF pf] obtain k s1 where
    k: "choose_victim cfg (s\<lparr>page_faults := page_faults s + 1\<rparr>) = Some (k, s1)"
      "k < num_frames cfg" "k < length (frames s)"
      "s' = install_page cfg opc v k (evict_victim cfg k s1)"
    by blast
  note kp = choose_victim_keeps [OF k(1)]
  from kp(1,6,7) k(3,4) l
  have "frames s' ! k = v" "frame_last_used s' = (frame_last_used s)[k := tick s]"
    "tick s' = tick s"
    by (simp_all add: install_page_last_used)
  with k(2,3) show ?thesis by blast
qed

lemma resolve_lru_stamp:
  assumes r: "resolve cfg opc v s = Some s'" and l: "alg cfg = ALG_LRU"
    and n: "length (frames s) = num_frames cfg"
  shows "\<exists>i<num_frames cfg. frames s' ! i = v
            \<and> frame_last_used s' = (frame_last_used s)[i := tick s] \<and> tick s' = tick s"
proof (cases "first_index (\<lambda>x. x = v) (frames s)")
  case None
  with r have "page_fault cfg opc v s = Some s'" by (simp add: resolve_def)
  from page_fault_lru_stamp [OF this l] show ?thesis by blast
next
  case (Some i)
  from first_index_Some [OF Some] n have i: "i < num_frames cfg" "frames s ! i = v" by simp_all
  from Some r l have "frames s' = frames s"
    "frame_last_used s' = (frame_last_used s)[i := tick s]" "tick s' = tick s"
    by (auto simp: resolve_def Let_def touch_frame_last_used split: if_splits)
  with i show ?thesis by auto
qed

lemma access_lru_stamp:
  assumes a: "access cfg opc addr s = Some s'" and l: "alg cfg = ALG_LRU"
    and ok: "state_ok cfg s"
  shows "\<exists>i<num_frames cfg. frames s' ! i = addr div PAGE_SIZE
            \<and> frame_last_used s' = (frame_last_used s)[i := tick s] \<and> tick s' = tick s"
proof -
  let ?v = "addr div PAGE_SIZE"
  from ok have n: "length (frames s) = num_frames cfg"
    and cons: "tlb_consistent (frames s) (tlb s)"
    by (simp_all add: state_ok_def arrays_ok_def)
  show ?thesis
  proof (cases "0 < tlb_size cfg")
    case False
    with a have "resolve cfg opc ?v s = Some s'" by (simp add: access_def Let_def)
    from resolve_lru_stamp [OF this l n] show ?thesis .
  next
    case True
    show ?thesis
    proof (cases "tlb_lookup (tlb s) ?v (tick s)")
      case None
      let ?s0 = "s\<lparr>tlb_misses := tlb_misses s + 1\<rparr>"
      from None True a have "resolve cfg opc ?v ?s0 = Some s'" by (simp add: access_def Let_def)
      from resolve_lru_stamp [OF this l] n show ?thesis by simp
    next
      case (Some r)
      then obtain tb fi where r: "tlb_lookup (tlb s) ?v (tick s) = Some (tb, fi)"
        by (cases r) auto
      from tlb_lookup_consistent [OF cons r] n
      have fi: "0 \<le> fi" "fi < int (num_frames cfg)" "frames s ! nat fi = ?v" by simp_all
      from r True a fi(1,2)
      have s': "s' = touch_frame cfg opc (nat fi) (s\<lparr>tlb := tb, tlb_hits := tlb_hits s + 1\<rparr>)"
        by (simp add: access_def Let_def)
      from fi(1,2) have "nat fi < num_frames cfg" by simp
      moreover from s' fi(3) l have "frames s' ! nat fi = ?v"
        "frame_last_used s' = (frame_last_used s)[nat fi := tick s]" "tick s' = tick s"
        by (simp_all add: touch_frame_last_used)
      ultimately show ?thesis by blast
    qed
  qed
qed

lemma lru_victim_choice:
  assumes l: "alg cfg = ALG_LRU" and full: "\<forall>x\<in>set (frames s). x \<noteq> - 1"
  shows "choose_victim cfg s = Some (lru_victim (frame_last_used s), s)"
proof -
  from full have "first_index (\<lambda>x. x = - 1) (frames s) = None" by (simp add: first_index_None)
  with l show ?thesis by (simp add: choose_victim_def)
qed

lemma lru2_touch_step:
  "process_record (lru2 2)
      \<lparr>reads = 1, writes = 1, page_faults = 2, tlb_hits = 0, tlb_misses = 2,
            write_backs = 0, frames = [0, 1], frame_last_used = [1, 2], ref_bits = [0, 0],
            dirty = [1, 0], fifo_index = 0, clock_hand = 0, tick = 2,
            tlb = [\<lparr>valid = 1, vpn = 0, frame_index = 0, last_used = 1\<rparr>,
                   \<lparr>valid = 1, vpn = 1, frame_index = 1, last_used = 2\<rparr>]\<rparr>
      (CHR ''R'', 0x0000)
     = Some \<lparr>reads = 2, writes = 1, page_faults = 2, tlb_hits = 1, tlb_misses = 2,
            write_backs = 0, frames = [0, 1], frame_last_used = [3, 2], ref_bits = [0, 0],
            dirty = [1, 0], fifo_index = 0, clock_hand = 0, tick = 3,
            tlb = [\<lparr>valid = 1, vpn = 0, frame_index = 0, last_used = 3\<rparr>,
                   \<lparr>valid = 1, vpn = 1, frame_index = 1, last_used = 2\<rparr>]\<rparr>"
  by code_simp

lemma empty_frame_first:
  assumes "i < length (frames s)" "frames s ! i = - 1" "\<forall>j<i. frames s ! j \<noteq> - 1"
  shows "choose_victim cfg s = Some (i, s)"
proof -
  from assms have "first_index (\<lambda>x. x = - 1) (frames s) = Some i"
    by (intro first_index_eq_Some) simp_all
  then show ?thesis by (simp add: choose_victim_def)
qed

lemma fifo2_scenario:
  "map (\<lambda>n. map_option (\<lambda>s. (frames s, page_faults s, fifo_index s, reads s, writes s, tlb_hits s))
         (simulate (fifo2 wp)
            (take n [(CHR ''R'', 0x0000), (CHR ''R'', 0x1000), (CHR ''R'', 0x2000),
                     (CHR ''R'', 0x0000)]))) [1, 2, 3, 4]
   = [Some ([0, - 1], 1, 0, 1, 0, 0), Some ([0, 1], 2, 0, 2, 0, 0),
      Some ([2, 1], 3, 1, 3, 0, 0), Some ([2, 0], 4, 0, 4, 0, 0)]"
  by (cases wp; hypsubst; code_simp)

lemma choose_victim_lru:
  assumes "alg cfg = ALG_LRU"
  shows "choose_victim cfg s =
     Some (case first_index (\<lambda>x. x = - 1) (frames s) of
             Some j \<Rightarrow> j | None \<Rightarrow> lru_victim (frame_last_used s), s)"
  using assms by (simp add: choose_victim_def split: option.splits)

lemma resolve_lru_slot:
  assumes r: "resolve cfg opc v s = Some s'" and l: "alg cfg = ALG_LRU"
  shows "frames s' = (frames s)[lru_slot (frames s) (frame_last_used s) v := v]
       \<and> frame_last_used s'
           = (frame_last_used s)[lru_slot (frames s) (frame_last_used s) v := tick s]
       \<and> tick s' = tick s"
proof (cases "first_index (\<lambda>x. x = v) (frames s)")
  case (Some i)
  from first_index_Some [OF Some] have i: "i < length (frames s)" "frames s ! i = v" by simp_all
  from Some have sl: "lru_slot (frames s) (frame_last_used s) v = i" by (simp add: lru_slot_def)
  from Some r l have "frames s' = frames s"
    "frame_last_used s' = (frame_last_used s)[i := tick s]" "tick s' = tick s"
    by (auto simp: resolve_def Let_def touch_frame_last_used split: if_splits)
  moreover from i have "(frames s)[i := v] = frames s" by (metis list_update_id)
  ultimately show ?thesis using sl by simp
next
  case None
  with r have pf: "page_fault cfg opc v s = Some s'" by (simp add: resolve_def)
  let ?s0 = "s\<lparr>page_faults := page_faults s + 1\<rparr>"
  from page_fault_Some [OF pf] obtain k s1 where
    k: "choose_victim cfg ?s0 = Some (k, s1)"
      "s' = install_page cfg opc v k (evict_victim cfg k s1)"
    by blast
  from k(1) choose_victim_lru [OF l, of ?s0]
  have kk: "k = (case first_index (\<lambda>x. x = - 1) (frames s) of
             Some j \<Rightarrow> j | None \<Rightarrow> lru_victim (frame_last_used s))" and s1: "s1 = ?s0"
    by (auto split: option.splits)
  from None kk have sl: "lru_slot (frames s) (frame_last_used s) v = k"
    by (simp add: lru_slot_def)
  from k(2) s1 l show ?thesis
    unfolding sl by (simp add: install_page_last_used)
qed

lemma access_lru_slot:
  assumes a: "access cfg opc addr s = Some s'" and l: "alg cfg = ALG_LRU"
    and ok: "state_ok cfg s"
  shows "frames s' = (frames s)[lru_slot (frames s) (frame_last_used s) (addr div PAGE_SIZE)
                                  := addr div PAGE_SIZE]
       \<and> frame_last_used s'
           = (frame_last_used s)[lru_slot (frames s) (frame_last_used s) (addr div PAGE_SIZE)
                                   := tick s]
       \<and> tick s' = tick s"
proof -
  let ?v = "addr div PAGE_SIZE"
  from ok have n: "length (frames s) = num_frames cfg"
    and cons: "tlb_consistent (frames s) (tlb s)" and nd: "no_dup (frames s)"
    by (simp_all add: state_ok_def arrays_ok_def)
  show ?thesis
  proof (cases "0 < tlb_size cfg")
    case False
    with a have "resolve cfg opc ?v s = Some s'" by (simp add: access_def Let_def)
    from resolve_lru_slot [OF this l] show ?thesis .
  next
    case True
    show ?thesis
    proof (cases "tlb_lookup (tlb s) ?v (tick s)")
      case None
      let ?s0 = "s\<lparr>tlb_misses := tlb_misses s + 1\<rparr>"
      from None True a have "resolve cfg opc ?v ?s0 = Some s'" by (simp add: access_def Let_def)
      from resolve_lru_slot [OF this l] show ?thesis by simp
    next
      case (Some r)
      then obtain tb fi where r: "tlb_lookup (tlb s) ?v (tick s) = Some (tb, fi)"
        by (cases r) auto
      from tlb_lookup_consistent [OF cons r] n
      have fi: "0 \<le> fi" "fi < int (num_frames cfg)" "frames s ! nat fi = ?v" "?v \<noteq> - 1"
        by simp_all
      from fi(1,2) n have fl: "nat fi < length (frames s)" by simp
      with fi(3) have "?v \<in> set (frames s)" by (metis nth_mem)
      then obtain i where i: "first_index (\<lambda>x. x = ?v) (frames s) = Some i"
        by (cases "first_index (\<lambda>x. x = ?v) (frames s)") (auto simp: first_index_None)
      from first_index_Some [OF i] have il: "i < length (frames s)" "frames s ! i = ?v"
        by simp_all
      from no_dup_nth [OF nd il(1) fl] il(2) fi(3,4) have "i = nat fi" by simp
      with i have sl: "lru_slot (frames s) (frame_last_used s) ?v = nat fi"
        by (simp add: lru_slot_def)
      from r True a fi(1,2)
      have s': "s' = touch_frame cfg opc (nat fi) (s\<lparr>tlb := tb, tlb_hits := tlb_hits s + 1\<rparr>)"
        by (simp add: access_def Let_def)
      from fl fi(3) have "(frames s)[nat fi := ?v] = frames s" by (metis list_update_id)
      with s' l show ?thesis unfolding sl by (simp add: touch_frame_last_used)
    qed
  qed
qed

lemma lru_step:
  assumes c: "cfg_ok cfg" and l: "alg cfg = ALG_LRU" and ok: "state_ok cfg s"
    and o: "opc = CHR ''R'' \<or> opc = CHR ''W''"
  shows "\<exists>s'. process_record cfg s (opc, addr) = Some s' \<and> state_ok cfg s'
           \<and> tick s' = tick s + 1
           \<and> frames s' = (frames s)[lru_slot (frames s) (frame_last_used s) (addr div PAGE_SIZE)
                                       := addr div PAGE_SIZE]
           \<and> frame_last_used s'
               = (frame_last_used s)[lru_slot (frames s) (frame_last_used s) (addr div PAGE_SIZE)
                                       := tick s + 1]"
proof -
  let ?s1 = "s\<lparr>tick := tick s + 1\<rparr>"
  let ?s2 = "if opc = CHR ''R'' then ?s1\<lparr>reads := reads ?s1 + 1\<rparr>
             else ?s1\<lparr>writes := writes ?s1 + 1\<rparr>"
  from ok have ok2: "state_ok cfg ?s2" by (simp add: state_ok_def arrays_ok_def all_clean_def)
  from o have pr: "process_record cfg s (opc, addr) = access cfg opc addr ?s2"
    by (auto simp: process_record_def Let_def)
  from access_ok [OF c ok2, of opc addr] obtain s' where
    s': "access cfg opc addr ?s2 = Some s'" "state_ok cfg s'"
    by blast
  from access_lru_slot [OF s'(1) l ok2] pr s' show ?thesis by simp
qed

lemma lru_victim_example: "lru_victim [3, 2] = 1"
  by code_simp

lemma lru_scenario_general:
  assumes n: "num_frames cfg = 2" and l: "alg cfg = ALG_LRU"
    and o1: "o1 = CHR ''R'' \<or> o1 = CHR ''W''" and o2: "o2 = CHR ''R'' \<or> o2 = CHR ''W''"
    and o3: "o3 = CHR ''R'' \<or> o3 = CHR ''W''" and o4: "o4 = CHR ''R'' \<or> o4 = CHR ''W''"
    and ab: "a div PAGE_SIZE \<noteq> b div PAGE_SIZE"
    and ca: "c div PAGE_SIZE \<noteq> a div PAGE_SIZE"
    and cb: "c div PAGE_SIZE \<noteq> b div PAGE_SIZE"
  shows "\<exists>s. simulate cfg [(o1, a), (o2, b), (o3, a), (o4, c)] = Some s
           \<and> frames s = [a div PAGE_SIZE, c div PAGE_SIZE]"
proof -
  let ?a = "a div PAGE_SIZE" and ?b = "b div PAGE_SIZE" and ?c = "c div PAGE_SIZE"
  have na: "?a \<noteq> - 1" "- 1 \<noteq> ?a" and nb: "?b \<noteq> - 1" "- 1 \<noteq> ?b"
    and nc: "?c \<noteq> - 1" "- 1 \<noteq> ?c"
    using vpn_not_marker [of a] vpn_not_marker [of b] vpn_not_marker [of c] by auto
  from n have c: "cfg_ok cfg" by (simp add: cfg_ok_def)
  let ?s0 = "init_state cfg"
  have ok0: "state_ok cfg ?s0" by (rule init_state_ok [OF c])
  have f0: "frames ?s0 = [- 1, - 1]" "frame_last_used ?s0 = [0, 0]" "tick ?s0 = 0"
    using n by (simp_all add: init_state_def numeral_2_eq_2)
  have sl1: "lru_slot [- 1, - 1] [0, 0] ?a = 0"
    using na by (simp add: lru_slot_def)
  have sl2: "lru_slot [?a, - 1] [1, 0] ?b = 1"
    using na nb ab by (simp add: lru_slot_def)
  have sl3: "lru_slot [?a, ?b] [1, 2] ?a = 0"
    by (simp add: lru_slot_def)
  have sl4: "lru_slot [?a, ?b] [3, 2] ?c = 1"
    using na nb ca [symmetric] cb [symmetric] by (simp add: lru_slot_def lru_victim_example)
  from lru_step [OF c l ok0 o1, of a] obtain s1 where
    s1: "process_record cfg ?s0 (o1, a) = Some s1" "state_ok cfg s1"
      "frames s1 = [?a, - 1]" "frame_last_used s1 = [1, 0]" "tick s1 = 1"
    unfolding f0 sl1 by auto
  from lru_step [OF c l s1(2) o2, of b] obtain s2 where
    s2: "process_record cfg s1 (o2, b) = Some s2" "state_ok cfg s2"
      "frames s2 = [?a, ?b]" "frame_last_used s2 = [1, 2]" "tick s2 = 2"
    unfolding s1(3,4,5) sl2 by auto
  from lru_step [OF c l s2(2) o3, of a] obtain s3 where
    s3: "process_record cfg s2 (o3, a) = Some s3" "state_ok cfg s3"
      "frames s3 = [?a, ?b]" "frame_last_used s3 = [3, 2]" "tick s3 = 3"
    unfolding s2(3,4,5) sl3 by auto
  from lru_step [OF c l s3(2) o4, of c] obtain s4 where
    s4: "process_record cfg s3 (o4, c) = Some s4" "frames s4 = [?a, ?c]"
    unfolding s3(3,4,5) sl4 by auto
  from s1(1) s2(1) s3(1) s4 show ?thesis by (simp add: simulate_def)
qed

lemma placement_cong:
  assumes "frames s0 = frames s" "dirty s0 = dirty s" "page_faults s0 = page_faults s"
    "write_backs s0 = write_backs s"
  shows "placement cfg opc v k s0 s' = placement cfg opc v k s s'"
  using assms by (simp add: placement_def)

lemma page_fault_placement:
  assumes pf: "page_fault cfg opc v s = Some s'" and nr: "v \<notin> set (frames s)"
  shows "\<exists>k. placement cfg opc v k s s'"
proof -
  from page_fault_Some [OF pf] obtain k s1 where
    k: "choose_victim cfg (s\<lparr>page_faults := page_faults s + 1\<rparr>) = Some (k, s1)"
      "k < length (frames s)" "k < length (dirty s)"
      "s' = install_page cfg opc v k (evict_victim cfg k s1)"
    by blast
  note kp = choose_victim_keeps [OF k(1)]
  have fr: "frames s' = (frames s)[k := v]" using kp(1) k(4) by simp
  have pfc: "page_faults s' = page_faults s + 1" using kp(5) k(4) by simp
  have wb: "write_backs s' =
     (if frames s ! k \<noteq> - 1 \<and> write_policy cfg = WP_WRITE_BACK \<and> dirty s ! k \<noteq> 0
      then write_backs s + 1 else write_backs s)"
    using kp(1,2,4) k(4) by (simp add: evict_victim_write_backs)
  have d: "dirty s' ! k =
          (if opc = CHR ''W'' \<and> write_policy cfg = WP_WRITE_BACK then 1
           else if frames s ! k \<noteq> - 1 \<and> write_policy cfg = WP_WRITE_BACK \<and> dirty s ! k \<noteq> 0
           then 0 else dirty s ! k)"
    using kp(1,2) k(3,4) by (simp add: install_page_dirty evict_victim_dirty)
  from k(2,3) nr fr pfc wb d have "placement cfg opc v k s s'"
    unfolding placement_def by blast
  then show ?thesis ..
qed

lemma resolve_placement:
  assumes "resolve cfg opc v s = Some s'"
  shows "(frames s' = frames s \<and> write_backs s' = write_backs s)
         \<or> (\<exists>k. placement cfg opc v k s s')"
proof (cases "first_index (\<lambda>x. x = v) (frames s)")
  case (Some i)
  with assms have "frames s' = frames s \<and> write_backs s' = write_backs s"
    by (auto simp: resolve_def Let_def split: if_splits)
  then show ?thesis by simp
next
  case None
  then have nr: "v \<notin> set (frames s)" by (auto simp: first_index_None)
  from None assms have "page_fault cfg opc v s = Some s'" by (simp add: resolve_def)
  from page_fault_placement [OF this nr] show ?thesis by simp
qed

lemma access_placement:
  assumes "access cfg opc addr s = Some s'"
  shows "(frames s' = frames s \<and> write_backs s' = write_backs s)
         \<or> (\<exists>k. placement cfg opc (addr div PAGE_SIZE) k s s')"
proof (cases "0 < tlb_size cfg")
  case False
  with assms resolve_placement [of cfg opc "addr div PAGE_SIZE" s s'] show ?thesis
    by (simp add: access_def Let_def)
next
  case True
  show ?thesis
  proof (cases "tlb_lookup (tlb s) (addr div PAGE_SIZE) (tick s)")
    case None
    let ?s0 = "s\<lparr>tlb_misses := tlb_misses s + 1\<rparr>"
    have "\<And>k. placement cfg opc (addr div PAGE_SIZE) k ?s0 s'
              = placement cfg opc (addr div PAGE_SIZE) k s s'"
      by (rule placement_cong) simp_all
    with None True assms resolve_placement [of cfg opc "addr div PAGE_SIZE" ?s0 s']
    show ?thesis by (simp add: access_def Let_def)
  next
    case (Some r)
    with True assms have "frames s' = frames s \<and> write_backs s' = write_backs s"
      by (cases r) (auto simp: access_def Let_def split: if_splits)
    then show ?thesis by simp
  qed
qed

lemma process_record_placement:
  assumes "process_record cfg s r = Some s'"
  shows "(frames s' = frames s \<and> write_backs s' = write_backs s)
         \<or> (\<exists>k. placement cfg (fst r) (snd r div PAGE_SIZE) k s s')"
proof -
  let ?s1 = "s\<lparr>tick := tick s + 1\<rparr>"
  let ?sr = "?s1\<lparr>reads := reads ?s1 + 1\<rparr>"
  let ?sw = "?s1\<lparr>writes := writes ?s1 + 1\<rparr>"
  have cr: "\<And>k. placement cfg (fst r) (snd r div PAGE_SIZE) k ?sr s'
                = placement cfg (fst r) (snd r div PAGE_SIZE) k s s'"
    by (rule placement_cong) simp_all
  have cw: "\<And>k. placement cfg (fst r) (snd r div PAGE_SIZE) k ?sw s'
                = placement cfg (fst r) (snd r div PAGE_SIZE) k s s'"
    by (rule placement_cong) simp_all
  consider "fst r = CHR ''R''" | "fst r \<noteq> CHR ''R''" "fst r = CHR ''W''"
    | "fst r \<noteq> CHR ''R''" "fst r \<noteq> CHR ''W''" by blast
  then show ?thesis
  proof cases
    case 1
    with assms access_placement [of cfg "fst r" "snd r" ?sr s'] cr
    show ?thesis by (simp add: process_record_def Let_def)
  next
    case 2
    with assms access_placement [of cfg "fst r" "snd r" ?sw s'] cw
    show ?thesis by (simp add: process_record_def Let_def)
  next
    case 3
    with assms show ?thesis by (auto simp: process_record_def Let_def)
  qed
qed

text \<open>A record that changes the occupant of frame \<open>k\<close> is a placement in frame \<open>k\<close>.\<close>

lemma process_record_replaces:
  assumes p: "process_record cfg s r = Some s'" and k: "k < length (frames s)"
    and ch: "frames s' ! k \<noteq> frames s ! k"
  shows "placement cfg (fst r) (snd r div PAGE_SIZE) k s s'"
proof -
  from process_record_placement [OF p] ch obtain j where
    j: "placement cfg (fst r) (snd r div PAGE_SIZE) j s s'"
    by auto
  then have "frames s' = (frames s)[j := snd r div PAGE_SIZE]" by (simp add: placement_def)
  with ch k have "j = k" by (cases "j = k") simp_all
  with j show ?thesis by simp
qed

lemma fifo2_wb_run:
  "simulate (fifo2 WP_WRITE_BACK) [(CHR ''W'', 0x0000), (CHR ''W'', 0x1000)]
     = Some \<lparr>reads = 0, writes = 2, page_faults = 2, tlb_hits = 0, tlb_misses = 0,
            write_backs = 0, frames = [0, 1], frame_last_used = [0, 0], ref_bits = [0, 0],
            dirty = [1, 1], fifo_index = 0, clock_hand = 0, tick = 2, tlb = []\<rparr>"
  by code_simp

lemma fifo2_wb_step:
  "process_record (fifo2 WP_WRITE_BACK)
      \<lparr>reads = 0, writes = 2, page_faults = 2, tlb_hits = 0, tlb_misses = 0,
            write_backs = 0, frames = [0, 1], frame_last_used = [0, 0], ref_bits = [0, 0],
            dirty = [1, 1], fifo_index = 0, clock_hand = 0, tick = 2, tlb = []\<rparr>
      (CHR ''W'', 0x2000)
     = Some \<lparr>reads = 0, writes = 3, page_faults = 3, tlb_hits = 0, tlb_misses = 0,
            write_backs = 1, frames = [2, 1], frame_last_used = [0, 0], ref_bits = [0, 0],
            dirty = [1, 1], fifo_index = 1, clock_hand = 0, tick = 3, tlb = []\<rparr>"
  by code_simp

lemma fifo2_wb_run4:
  "map_option write_backs
     (simulate (fifo2 WP_WRITE_BACK)
        [(CHR ''W'', 0x0000), (CHR ''W'', 0x1000), (CHR ''W'', 0x2000), (CHR ''W'', 0x3000)])
     = Some 2"
  by code_simp

section \<open>Lemmas on the final report and on the counters of a run\<close>

lemma to_double_pos:
  assumes "0 <s x"
  shows "0 < to_double x"
proof -
  from assms have "0 < sint x" by (simp add: word_sless_alt)
  then have "0 < real_of_int (sint x)" by (simp only: of_int_0_less_iff)
  then show ?thesis unfolding to_double_def .
qed

lemma to_double_nonzero: "0 <s x \<Longrightarrow> to_double x \<noteq> 0"
  using to_double_pos [of x] by simp

lemma memory_rates_eq:
  "memory_rates rnd s =
     Inr (if 0 <s reads s + writes s
          then Some (rnd (to_double (page_faults s) / to_double (reads s + writes s)),
                     rnd (1 - rnd (to_double (page_faults s) / to_double (reads s + writes s))))
          else None)"
  by (simp add: memory_rates_def ddiv_def Let_def to_double_nonzero)

lemma tlb_rates_eq:
  "tlb_rates rnd cfg s =
     Inr (if 0 < tlb_size cfg \<and> 0 <s tlb_hits s + tlb_misses s
          then Some (rnd (to_double (tlb_hits s) / to_double (tlb_hits s + tlb_misses s)),
                 rnd (rnd (rnd (rnd (to_double (tlb_hits s) / to_double (tlb_hits s + tlb_misses s))
                                  * TLB_LAT)
                           + rnd (rnd (1 - rnd (to_double (tlb_hits s)
                                                  / to_double (tlb_hits s + tlb_misses s)))
                                    * MEM_LAT))
                      + rnd ((if 0 <s reads s + writes s
                              then rnd (to_double (page_faults s) / to_double (reads s + writes s))
                              else 0) * DISK_LAT)))
          else None)"
  by (simp add: tlb_rates_def ddiv_def Let_def to_double_nonzero)

lemma final_report_eq:
  "final_report rnd cfg s =
     Inr \<lparr>fault_rate = map_option fst (projr (memory_rates rnd s)),
          hit_rate = map_option snd (projr (memory_rates rnd s)),
          tlb_hit_rate = map_option fst (projr (tlb_rates rnd cfg s)),
          amat = map_option snd (projr (tlb_rates rnd cfg s))\<rparr>"
  by (simp add: final_report_def memory_rates_eq tlb_rates_eq)
















section \<open>Claims\<close>

text \<open>
  C10 (occupant-sentinel safety). For every 32-bit address the VPN \<open>addr / 4096\<close> is at most
  \<open>2^20 - 1\<close>. So the cast \<open>(int)vpn\<close> keeps the value (the signed reading of the stored
  word is the unsigned one), the stored occupant is never the marker \<open>-1\<close>, the cast back
  \<open>(unsigned int)frames[victim]\<close> gives the VPN again, two occupants compare equal as
  \<open>int\<close> exactly when the VPNs are equal, and the frame a page was placed in is never the
  one the empty-slot scan reports.
\<close>

theorem occupant_sentinel_safe:
  fixes addr :: "32 word"
  shows "unat (addr div PAGE_SIZE) \<le> 2 ^ 20 - 1
    \<and> sint (addr div PAGE_SIZE) = int (unat (addr div PAGE_SIZE))
    \<and> addr div PAGE_SIZE \<noteq> - 1
    \<and> (word_of_int (sint (addr div PAGE_SIZE)) :: 32 word) = addr div PAGE_SIZE
    \<and> (\<forall>a :: 32 word. sint (a div PAGE_SIZE) = sint (addr div PAGE_SIZE)
          \<longleftrightarrow> unat (a div PAGE_SIZE) = unat (addr div PAGE_SIZE))
    \<and> (\<forall>cfg opc k s. k < length (frames s) \<longrightarrow>
          frames (install_page cfg opc (addr div PAGE_SIZE) k s) ! k = addr div PAGE_SIZE
          \<and> first_index (\<lambda>x. x = - 1) (frames (install_page cfg opc (addr div PAGE_SIZE) k s))
              \<noteq> Some k)"
proof -
  let ?v = "addr div PAGE_SIZE"
  have b: "unat ?v \<le> 2 ^ 20 - 1" using vpn_bound [of addr] by simp
  have s: "sint ?v = int (unat ?v)" by (simp add: vpn_sint)
  have n: "?v \<noteq> - 1" by (rule vpn_not_marker)
  have w: "(word_of_int (sint ?v) :: 32 word) = ?v" by simp
  have e: "\<forall>a :: 32 word. sint (a div PAGE_SIZE) = sint ?v \<longleftrightarrow> unat (a div PAGE_SIZE) = unat ?v"
    by (simp add: vpn_sint word_uint_eq_iff [symmetric] word_unat_eq_iff [symmetric])
  have f: "\<forall>cfg opc k s. k < length (frames s) \<longrightarrow>
          frames (install_page cfg opc ?v k s) ! k = ?v
          \<and> first_index (\<lambda>x. x = - 1) (frames (install_page cfg opc ?v k s)) \<noteq> Some k"
  proof (intro allI impI conjI)
    fix cfg opc k and s :: sim_state assume k: "k < length (frames s)"
    then show "frames (install_page cfg opc ?v k s) ! k = ?v" by simp
    show "first_index (\<lambda>x. x = - 1) (frames (install_page cfg opc ?v k s)) \<noteq> Some k"
    proof
      assume "first_index (\<lambda>x. x = - 1) (frames (install_page cfg opc ?v k s)) = Some k"
      from first_index_Some [OF this] k n show False by simp
    qed
  qed
  from b s n w e f show ?thesis by blast
qed

theorem occupant_sentinel_safe_witness:
  "unat ((0xFFFFFFFF :: 32 word) div PAGE_SIZE) \<le> 2 ^ 20 - 1
   \<and> sint ((0xFFFFFFFF :: 32 word) div PAGE_SIZE) = 1048575
   \<and> (0xFFFFFFFF :: 32 word) div PAGE_SIZE \<noteq> - 1
   \<and> (0::nat) < length (frames (init_state \<lparr>alg = ALG_FIFO, write_policy = WP_WRITE_THROUGH, tlb_size = 0, num_frames = 1\<rparr>))
   \<and> first_index (\<lambda>x. x = - 1)
        (frames (install_page \<lparr>alg = ALG_FIFO, write_policy = WP_WRITE_THROUGH, tlb_size = 0, num_frames = 1\<rparr>
           (CHR ''R'') (0xFFFFFFFF div PAGE_SIZE) 0
           (init_state \<lparr>alg = ALG_FIFO, write_policy = WP_WRITE_THROUGH, tlb_size = 0, num_frames = 1\<rparr>)))
       \<noteq> Some 0"
  using occupant_sentinel_safe [of "0xFFFFFFFF"]
  by (simp add: PAGE_SIZE_def init_state_def)

text \<open>
  C8 (TLB insert). For a TLB of at least one entry, \<open>tlb_insert\<close> overwrites the frame index
  and the stamp of the first valid entry that holds the VPN; if there is none, it fills the
  invalid slot of lowest index; if every entry is valid, it overwrites the entry whose stamp
  is smallest, the lowest index among equal stamps. The function takes no eviction
  policy: the rule is the same under FIFO, LRU and CLOCK.
\<close>

theorem tlb_insert_algorithm:
  assumes ne: "tb \<noteq> []"
  shows "(i < length tb \<and> valid (tb ! i) \<noteq> 0 \<and> vpn (tb ! i) = v
             \<and> (\<forall>j<i. \<not> (valid (tb ! j) \<noteq> 0 \<and> vpn (tb ! j) = v))
          \<longrightarrow> tlb_insert tb v f t = tb[i := (tb ! i)\<lparr>frame_index := f, last_used := t\<rparr>])
    \<and> ((\<forall>e\<in>set tb. \<not> (valid e \<noteq> 0 \<and> vpn e = v))
          \<and> i < length tb \<and> valid (tb ! i) = 0 \<and> (\<forall>j<i. valid (tb ! j) \<noteq> 0)
          \<longrightarrow> tlb_insert tb v f t
                  = tb[i := \<lparr>valid = 1, vpn = v, frame_index = f, last_used = t\<rparr>])
    \<and> ((\<forall>e\<in>set tb. valid e \<noteq> 0 \<and> vpn e \<noteq> v) \<longrightarrow>
         (\<exists>k<length tb.
            (\<forall>j<length tb. last_used (tb ! k) \<le> last_used (tb ! j))
            \<and> (\<forall>j<k. last_used (tb ! k) < last_used (tb ! j))
            \<and> tlb_insert tb v f t
                  = tb[k := \<lparr>valid = 1, vpn = v, frame_index = f, last_used = t\<rparr>]))"
proof (intro conjI impI)
  assume "i < length tb \<and> valid (tb ! i) \<noteq> 0 \<and> vpn (tb ! i) = v
             \<and> (\<forall>j<i. \<not> (valid (tb ! j) \<noteq> 0 \<and> vpn (tb ! j) = v))"
  then have "first_index (\<lambda>e. valid e \<noteq> 0 \<and> vpn e = v) tb = Some i"
    by (intro first_index_eq_Some) simp_all
  with ne show "tlb_insert tb v f t = tb[i := (tb ! i)\<lparr>frame_index := f, last_used := t\<rparr>]"
    by (simp add: tlb_insert_def)
next
  assume h: "(\<forall>e\<in>set tb. \<not> (valid e \<noteq> 0 \<and> vpn e = v))
          \<and> i < length tb \<and> valid (tb ! i) = 0 \<and> (\<forall>j<i. valid (tb ! j) \<noteq> 0)"
  then have a: "first_index (\<lambda>e. valid e \<noteq> 0 \<and> vpn e = v) tb = None"
    by (simp add: first_index_None)
  from h have b: "first_index (\<lambda>e. valid e = 0) tb = Some i"
    by (intro first_index_eq_Some) simp_all
  from ne a b show "tlb_insert tb v f t
      = tb[i := \<lparr>valid = 1, vpn = v, frame_index = f, last_used = t\<rparr>]"
    by (simp add: tlb_insert_def TLBEntry_overwrite)
next
  assume full: "\<forall>e\<in>set tb. valid e \<noteq> 0 \<and> vpn e \<noteq> v"
  let ?lu = "map last_used tb"
  let ?i = "lru_victim ?lu"
  from full have a: "first_index (\<lambda>e. valid e \<noteq> 0 \<and> vpn e = v) tb = None"
    by (simp add: first_index_None)
  from full have b: "first_index (\<lambda>e. valid e = 0) tb = None"
    by (simp add: first_index_None)
  from ne have lne: "?lu \<noteq> []" by simp
  have il: "?i < length tb" using lru_victim_min(1) [OF lne] by simp
  have m1: "\<forall>j<length tb. last_used (tb ! ?i) \<le> last_used (tb ! j)"
    using lru_victim_min(2) [OF lne] il by simp
  have m2: "\<forall>j<?i. last_used (tb ! ?i) < last_used (tb ! j)"
  proof (intro allI impI)
    fix j assume j: "j < ?i"
    with il have "j < length tb" by simp
    with lru_victim_min(3) [OF lne j] il show "last_used (tb ! ?i) < last_used (tb ! j)" by simp
  qed
  from ne a b have "tlb_insert tb v f t
      = tb[?i := \<lparr>valid = 1, vpn = v, frame_index = f, last_used = t\<rparr>]"
    by (simp add: tlb_insert_def Let_def TLBEntry_overwrite)
  with il m1 m2 show "\<exists>k<length tb.
            (\<forall>j<length tb. last_used (tb ! k) \<le> last_used (tb ! j))
            \<and> (\<forall>j<k. last_used (tb ! k) < last_used (tb ! j))
            \<and> tlb_insert tb v f t
                  = tb[k := \<lparr>valid = 1, vpn = v, frame_index = f, last_used = t\<rparr>]"
    by blast
qed

theorem tlb_insert_algorithm_witness:
  "tlb_insert
        [\<lparr>valid = 1, vpn = 7, frame_index = 0, last_used = 5\<rparr>,
         \<lparr>valid = 1, vpn = 8, frame_index = 1, last_used = 3\<rparr>,
         \<lparr>valid = 1, vpn = 8, frame_index = 2, last_used = 3\<rparr>] 8 4 6
       = [\<lparr>valid = 1, vpn = 7, frame_index = 0, last_used = 5\<rparr>,
          \<lparr>valid = 1, vpn = 8, frame_index = 4, last_used = 6\<rparr>,
          \<lparr>valid = 1, vpn = 8, frame_index = 2, last_used = 3\<rparr>]
   \<and> tlb_insert
        [\<lparr>valid = 1, vpn = 7, frame_index = 0, last_used = 5\<rparr>,
         \<lparr>valid = 0, vpn = 8, frame_index = 1, last_used = 3\<rparr>,
         \<lparr>valid = 0, vpn = 9, frame_index = 2, last_used = 2\<rparr>] 8 4 6
       = [\<lparr>valid = 1, vpn = 7, frame_index = 0, last_used = 5\<rparr>,
          \<lparr>valid = 1, vpn = 8, frame_index = 4, last_used = 6\<rparr>,
          \<lparr>valid = 0, vpn = 9, frame_index = 2, last_used = 2\<rparr>]
   \<and> tlb_insert
        [\<lparr>valid = 1, vpn = 7, frame_index = 0, last_used = 5\<rparr>,
         \<lparr>valid = 1, vpn = 8, frame_index = 1, last_used = 3\<rparr>,
         \<lparr>valid = 1, vpn = 9, frame_index = 2, last_used = 3\<rparr>] 10 4 6
       = [\<lparr>valid = 1, vpn = 7, frame_index = 0, last_used = 5\<rparr>,
          \<lparr>valid = 1, vpn = 10, frame_index = 4, last_used = 6\<rparr>,
          \<lparr>valid = 1, vpn = 9, frame_index = 2, last_used = 3\<rparr>]"
proof -
  let ?a = "[\<lparr>valid = 1, vpn = 7, frame_index = 0, last_used = 5\<rparr>,
         \<lparr>valid = 1, vpn = 8, frame_index = 1, last_used = 3\<rparr>,
         \<lparr>valid = 1, vpn = 8, frame_index = 2, last_used = 3\<rparr>]"
  let ?b = "[\<lparr>valid = 1, vpn = 7, frame_index = 0, last_used = 5\<rparr>,
         \<lparr>valid = 0, vpn = 8, frame_index = 1, last_used = 3\<rparr>,
         \<lparr>valid = 0, vpn = 9, frame_index = 2, last_used = 2\<rparr>]"
  let ?c = "[\<lparr>valid = 1, vpn = 7, frame_index = 0, last_used = 5\<rparr>,
         \<lparr>valid = 1, vpn = 8, frame_index = 1, last_used = 3\<rparr>,
         \<lparr>valid = 1, vpn = 9, frame_index = 2, last_used = 3\<rparr>]"
  let ?n = "\<lparr>valid = 1, vpn = 10, frame_index = 4, last_used = 6\<rparr>"
  have a: "?a \<noteq> []" and b: "?b \<noteq> []" and c: "?c \<noteq> []" by simp_all
  have 1: "tlb_insert ?a 8 4 6 = ?a[1 := (?a ! 1)\<lparr>frame_index := 4, last_used := 6\<rparr>]"
    using tlb_insert_algorithm [OF a, of 1 8 4 6] by simp
  have 2: "tlb_insert ?b 8 4 6 = ?b[1 := \<lparr>valid = 1, vpn = 8, frame_index = 4, last_used = 6\<rparr>]"
    using tlb_insert_algorithm [OF b, of 1 8 4 6] by simp
  have full: "\<forall>e\<in>set ?c. valid e \<noteq> 0 \<and> vpn e \<noteq> 10" by simp
  from tlb_insert_algorithm [OF c, of 0 10 4 6, THEN conjunct2, THEN conjunct2, THEN mp, OF full]
  obtain k where k: "k < length ?c"
    "\<forall>j<length ?c. last_used (?c ! k) \<le> last_used (?c ! j)"
    "\<forall>j<k. last_used (?c ! k) < last_used (?c ! j)"
    "tlb_insert ?c 10 4 6 = ?c[k := ?n]"
    by blast
  from k(1) have "k = 0 \<or> k = 1 \<or> k = 2" by (simp add: less_Suc_eq) arith
  then have "k = 1"
  proof (elim disjE)
    assume "k = 0"
    with k(2) [rule_format, of 1] have "last_used (?c ! 0) \<le> last_used (?c ! 1)" by simp
    then show ?thesis by simp
  next
    assume "k = 2"
    with k(3) [rule_format, of 1] have "last_used (?c ! 2) < last_used (?c ! 1)" by simp
    then show ?thesis by simp
  qed simp
  with k(4) have 3: "tlb_insert ?c 10 4 6 = ?c[1 := ?n]" by simp
  from 1 2 3 show ?thesis by simp
qed

text \<open>
  C3 (CLOCK termination). In every state that a run reaches, the CLOCK scan returns: it
  selects a frame of the array whose reference bit is clear, leaves the hand one past it,
  and visits at least one and at most \<open>2 * num_frames\<close> frames. With the CLOCK policy and no
  empty frame this scan is the victim choice of the page fault. When every reference bit is
  set, the scan clears all of them in one sweep of \<open>num_frames\<close> visits and selects, on
  the next visit, the frame the hand started on: \<open>num_frames + 1\<close> visits.
\<close>

theorem clock_scan_terminates:
  assumes c: "cfg_ok cfg" and r: "simulate cfg recs = Some s"
  shows "\<exists>victim rb hand k.
           clock_scan (ref_bits s) (clock_hand s) (num_frames cfg) 0 = Some (victim, rb, hand, k)
           \<and> victim < num_frames cfg \<and> rb ! victim = 0
           \<and> hand = (victim + 1) mod num_frames cfg \<and> 1 \<le> k \<and> k \<le> 2 * num_frames cfg
           \<and> (alg cfg = ALG_CLOCK \<and> (\<forall>x\<in>set (frames s). x \<noteq> - 1)
                \<longrightarrow> choose_victim cfg s = Some (victim, s\<lparr>ref_bits := rb, clock_hand := hand\<rparr>))
           \<and> ((\<forall>b\<in>set (ref_bits s). b \<noteq> 0)
                \<longrightarrow> victim = clock_hand s \<and> rb = replicate (num_frames cfg) 0
                    \<and> k = num_frames cfg + 1)"
proof -
  from simulate_ok [OF c, of recs] r have "state_ok cfg s" by simp
  then have l: "length (ref_bits s) = num_frames cfg" and h: "clock_hand s < num_frames cfg"
    by (simp_all add: state_ok_def arrays_ok_def)
  from clock_scan_total [OF l h, of 0] obtain victim rb hand k where t:
    "clock_scan (ref_bits s) (clock_hand s) (num_frames cfg) 0 = Some (victim, rb, hand, k)"
    "victim < num_frames cfg" "rb ! victim = 0" "Suc 0 \<le> k"
    "hand = (victim + 1) mod num_frames cfg"
    "k \<le> Suc (0 + card {i. i < length (ref_bits s) \<and> ref_bits s ! i \<noteq> 0})"
    by blast
  have "card {i. i < length (ref_bits s) \<and> ref_bits s ! i \<noteq> 0} \<le> card {..<length (ref_bits s)}"
    by (rule card_mono) auto
  with t(6) l have "k \<le> Suc (num_frames cfg)" by simp
  moreover from c have "Suc (num_frames cfg) \<le> 2 * num_frames cfg" by (simp add: cfg_ok_def)
  ultimately have b: "k \<le> 2 * num_frames cfg" by simp
  have ch: "alg cfg = ALG_CLOCK \<and> (\<forall>x\<in>set (frames s). x \<noteq> - 1)
                \<longrightarrow> choose_victim cfg s = Some (victim, s\<lparr>ref_bits := rb, clock_hand := hand\<rparr>)"
  proof
    assume a: "alg cfg = ALG_CLOCK \<and> (\<forall>x\<in>set (frames s). x \<noteq> - 1)"
    then have "first_index (\<lambda>x. x = - 1) (frames s) = None" by (simp add: first_index_None)
    with a t(1) show "choose_victim cfg s = Some (victim, s\<lparr>ref_bits := rb, clock_hand := hand\<rparr>)"
      by (simp add: choose_victim_def)
  qed
  have al: "(\<forall>b\<in>set (ref_bits s). b \<noteq> 0)
                \<longrightarrow> victim = clock_hand s \<and> rb = replicate (num_frames cfg) 0
                    \<and> k = num_frames cfg + 1"
  proof
    assume "\<forall>b\<in>set (ref_bits s). b \<noteq> 0"
    from clock_scan_all_set [OF h l this, of 0] t(1)
    show "victim = clock_hand s \<and> rb = replicate (num_frames cfg) 0 \<and> k = num_frames cfg + 1"
      by simp
  qed
  from t(1,2,3,4,5) b ch al show ?thesis by simp
qed

lemma clock2_run:
  "simulate clock2 [(CHR ''R'', 0x0000), (CHR ''R'', 0x1000)]
     = Some \<lparr>reads = 2, writes = 0, page_faults = 2, tlb_hits = 0, tlb_misses = 2,
            write_backs = 0, frames = [0, 1], frame_last_used = [0, 0], ref_bits = [1, 1],
            dirty = [0, 0], fifo_index = 0, clock_hand = 0, tick = 2,
            tlb = [\<lparr>valid = 1, vpn = 0, frame_index = 0, last_used = 1\<rparr>,
                   \<lparr>valid = 1, vpn = 1, frame_index = 1, last_used = 2\<rparr>]\<rparr>"
  by code_simp

theorem clock_scan_terminates_witness:
  "cfg_ok clock2
   \<and> (\<exists>s. simulate clock2 [(CHR ''R'', 0x0000), (CHR ''R'', 0x1000)] = Some s
          \<and> ref_bits s = [1, 1] \<and> clock_hand s = 0
          \<and> clock_scan (ref_bits s) (clock_hand s) (num_frames clock2) 0
               = Some (0, [0, 0], 1, 3)
          \<and> choose_victim clock2 s = Some (0, s\<lparr>ref_bits := [0, 0], clock_hand := 1\<rparr>))"
proof -
  have c: "cfg_ok clock2" by (simp add: cfg_ok_def clock2_def)
  let ?s = "\<lparr>reads = 2, writes = 0, page_faults = 2, tlb_hits = 0, tlb_misses = 2,
            write_backs = 0, frames = [0, 1], frame_last_used = [0, 0], ref_bits = [1, 1],
            dirty = [0, 0], fifo_index = 0, clock_hand = 0, tick = 2,
            tlb = [\<lparr>valid = 1, vpn = 0, frame_index = 0, last_used = 1\<rparr>,
                   \<lparr>valid = 1, vpn = 1, frame_index = 1, last_used = 2\<rparr>]\<rparr>"
  from clock_scan_terminates [OF c clock2_run]
  obtain victim rb hand k where t:
    "clock_scan (ref_bits ?s) (clock_hand ?s) (num_frames clock2) 0 = Some (victim, rb, hand, k)"
    "hand = (victim + 1) mod num_frames clock2"
    "alg clock2 = ALG_CLOCK \<and> (\<forall>x\<in>set (frames ?s). x \<noteq> - 1)
       \<longrightarrow> choose_victim clock2 ?s = Some (victim, ?s\<lparr>ref_bits := rb, clock_hand := hand\<rparr>)"
    "(\<forall>b\<in>set (ref_bits ?s). b \<noteq> 0)
       \<longrightarrow> victim = clock_hand ?s \<and> rb = replicate (num_frames clock2) 0
           \<and> k = num_frames clock2 + 1"
    by blast
  from t(4) have v: "victim = 0" "rb = [0, 0]" "k = 3"
    by (simp_all add: clock2_def numeral_2_eq_2)
  with t(2) have hd: "hand = 1" by (simp add: clock2_def)
  from t(1,3) v hd c show ?thesis
    unfolding clock2_run by (simp add: clock2_def)
qed

text \<open>
  C1 (TLB consistency). After every trace, hence after every record of a run, each valid
  TLB entry names a frame of the array and that frame holds the entry's VPN (which is a page,
  not the empty marker). The eviction step, which runs before the new page is written to the
  frame, leaves the frame array as it was and leaves no valid TLB entry for the occupant it
  evicts.
\<close>

theorem tlb_consistency:
  assumes c: "cfg_ok cfg"
  shows "(\<exists>s. simulate cfg recs = Some s
            \<and> (\<forall>e\<in>set (tlb s). valid e \<noteq> 0 \<longrightarrow>
                  0 \<le> frame_index e \<and> frame_index e < int (num_frames cfg)
                  \<and> frames s ! nat (frame_index e) = vpn e \<and> vpn e \<noteq> - 1))
    \<and> (0 < tlb_size cfg \<and> frames s0 ! k \<noteq> - 1 \<longrightarrow>
          frames (evict_victim cfg k s0) = frames s0
          \<and> (\<forall>e\<in>set (tlb (evict_victim cfg k s0)). valid e \<noteq> 0 \<longrightarrow> vpn e \<noteq> frames s0 ! k))"
proof
  from simulate_ok [OF c, of recs] obtain s where s: "simulate cfg recs = Some s" "state_ok cfg s"
    by blast
  from s(2) have "tlb_consistent (frames s) (tlb s)" "length (frames s) = num_frames cfg"
    by (simp_all add: state_ok_def arrays_ok_def)
  then have "\<forall>e\<in>set (tlb s). valid e \<noteq> 0 \<longrightarrow>
                  0 \<le> frame_index e \<and> frame_index e < int (num_frames cfg)
                  \<and> frames s ! nat (frame_index e) = vpn e \<and> vpn e \<noteq> - 1"
    by (simp add: tlb_consistent_def)
  with s(1) show "\<exists>s. simulate cfg recs = Some s
            \<and> (\<forall>e\<in>set (tlb s). valid e \<noteq> 0 \<longrightarrow>
                  0 \<le> frame_index e \<and> frame_index e < int (num_frames cfg)
                  \<and> frames s ! nat (frame_index e) = vpn e \<and> vpn e \<noteq> - 1)"
    by blast
next
  show "0 < tlb_size cfg \<and> frames s0 ! k \<noteq> - 1 \<longrightarrow>
          frames (evict_victim cfg k s0) = frames s0
          \<and> (\<forall>e\<in>set (tlb (evict_victim cfg k s0)). valid e \<noteq> 0 \<longrightarrow> vpn e \<noteq> frames s0 ! k)"
    using tlb_invalidate_vpn_mem by (auto simp: evict_victim_tlb)
qed

theorem tlb_consistency_witness:
  "cfg_ok (lru2 2)
   \<and> (\<exists>s. simulate (lru2 2) [(CHR ''W'', 0x0000), (CHR ''R'', 0x1000), (CHR ''R'', 0x2000)] = Some s
         \<and> frames s = [2, 1]
         \<and> tlb s = [\<lparr>valid = 1, vpn = 2, frame_index = 0, last_used = 3\<rparr>,
                    \<lparr>valid = 1, vpn = 1, frame_index = 1, last_used = 2\<rparr>]
         \<and> (\<forall>e\<in>set (tlb s). valid e \<noteq> 0 \<longrightarrow>
                  0 \<le> frame_index e \<and> frame_index e < int (num_frames (lru2 2))
                  \<and> frames s ! nat (frame_index e) = vpn e \<and> vpn e \<noteq> - 1))
   \<and> (\<exists>s0. simulate (lru2 2) [(CHR ''W'', 0x0000), (CHR ''R'', 0x1000)] = Some s0
         \<and> 0 < tlb_size (lru2 2) \<and> frames s0 ! 0 = 0
         \<and> map valid (tlb s0) = [1, 1] \<and> map vpn (tlb s0) = [0, 1]
         \<and> map valid (tlb (evict_victim (lru2 2) 0 s0)) = [0, 1]
         \<and> (\<forall>e\<in>set (tlb (evict_victim (lru2 2) 0 s0)). valid e \<noteq> 0 \<longrightarrow> vpn e \<noteq> frames s0 ! 0))"
proof -
  let ?s0 = "\<lparr>reads = 1, writes = 1, page_faults = 2, tlb_hits = 0, tlb_misses = 2,
            write_backs = 0, frames = [0, 1], frame_last_used = [1, 2], ref_bits = [0, 0],
            dirty = [1, 0], fifo_index = 0, clock_hand = 0, tick = 2,
            tlb = [\<lparr>valid = 1, vpn = 0, frame_index = 0, last_used = 1\<rparr>,
                   \<lparr>valid = 1, vpn = 1, frame_index = 1, last_used = 2\<rparr>]\<rparr>"
  note t = tlb_consistency [OF lru2_ok, of 2
      "[(CHR ''W'', 0x0000), (CHR ''R'', 0x1000), (CHR ''R'', 0x2000)]" ?s0 0]
  have h: "0 < tlb_size (lru2 2) \<and> frames ?s0 ! 0 \<noteq> - 1" by (simp add: lru2_def)
  from t [THEN conjunct2, THEN mp, OF h]
  have e: "\<forall>e\<in>set (tlb (evict_victim (lru2 2) 0 ?s0)). valid e \<noteq> 0 \<longrightarrow> vpn e \<noteq> frames ?s0 ! 0"
    by simp
  have v: "map valid (tlb (evict_victim (lru2 2) 0 ?s0)) = [0, 1]"
    by (simp add: evict_victim_tlb lru2_def tlb_invalidate_vpn_def)
  from t [THEN conjunct1] e v h lru2_ok [of 2] show ?thesis
    unfolding lru2_run lru2_run_evict by simp
qed

text \<open>
  C2 (no duplicate residency, capacity). After every trace the frame array has
  \<open>num_frames\<close> cells, so at most \<open>num_frames\<close> distinct VPNs are resident, and no two
  frames hold the same page. Every record keeps it so from any state and under every policy:
  the record either leaves the frame array as it is or writes the record's VPN to exactly one
  frame, and only when no frame held that VPN.
\<close>

theorem no_duplicate_residency:
  assumes c: "cfg_ok cfg"
  shows "(\<exists>s. simulate cfg recs = Some s \<and> length (frames s) = num_frames cfg
            \<and> card (set (resident (frames s))) \<le> num_frames cfg
            \<and> (\<forall>i<num_frames cfg. \<forall>j<num_frames cfg.
                  frames s ! i = frames s ! j \<and> frames s ! i \<noteq> - 1 \<longrightarrow> i = j))
    \<and> (no_dup (frames s0) \<and> process_record cfg s0 r = Some s1 \<longrightarrow>
          no_dup (frames s1)
          \<and> (frames s1 = frames s0
              \<or> (\<exists>k<length (frames s0). frames s1 = (frames s0)[k := snd r div PAGE_SIZE]
                    \<and> snd r div PAGE_SIZE \<notin> set (frames s0))))"
proof
  from simulate_ok [OF c, of recs] obtain s where s: "simulate cfg recs = Some s" "state_ok cfg s"
    by blast
  from s(2) have l: "length (frames s) = num_frames cfg" and nd: "no_dup (frames s)"
    by (simp_all add: state_ok_def arrays_ok_def)
  have "card (set (resident (frames s))) \<le> length (resident (frames s))" by (rule card_length)
  also have "\<dots> \<le> length (frames s)" by (simp add: resident_def)
  finally have cd: "card (set (resident (frames s))) \<le> num_frames cfg" using l by simp
  have "\<forall>i<num_frames cfg. \<forall>j<num_frames cfg.
                  frames s ! i = frames s ! j \<and> frames s ! i \<noteq> - 1 \<longrightarrow> i = j"
    using no_dup_nth [OF nd] l by auto
  with s(1) l cd show "\<exists>s. simulate cfg recs = Some s \<and> length (frames s) = num_frames cfg
            \<and> card (set (resident (frames s))) \<le> num_frames cfg
            \<and> (\<forall>i<num_frames cfg. \<forall>j<num_frames cfg.
                  frames s ! i = frames s ! j \<and> frames s ! i \<noteq> - 1 \<longrightarrow> i = j)"
    by blast
next
  show "no_dup (frames s0) \<and> process_record cfg s0 r = Some s1 \<longrightarrow>
          no_dup (frames s1)
          \<and> (frames s1 = frames s0
              \<or> (\<exists>k<length (frames s0). frames s1 = (frames s0)[k := snd r div PAGE_SIZE]
                    \<and> snd r div PAGE_SIZE \<notin> set (frames s0)))"
  proof
    assume a: "no_dup (frames s0) \<and> process_record cfg s0 r = Some s1"
    then have f: "frames s1 = frames s0
              \<or> (\<exists>k<length (frames s0). frames s1 = (frames s0)[k := snd r div PAGE_SIZE]
                    \<and> snd r div PAGE_SIZE \<notin> set (frames s0))"
      using process_record_frames by blast
    with a have "no_dup (frames s1)" by (auto simp: no_dup_update)
    with f show "no_dup (frames s1)
          \<and> (frames s1 = frames s0
              \<or> (\<exists>k<length (frames s0). frames s1 = (frames s0)[k := snd r div PAGE_SIZE]
                    \<and> snd r div PAGE_SIZE \<notin> set (frames s0)))"
      by simp
  qed
qed

theorem no_duplicate_residency_witness:
  "cfg_ok clock2
   \<and> (\<exists>s. simulate clock2 [(CHR ''R'', 0x0000), (CHR ''R'', 0x1000), (CHR ''R'', 0x2000)] = Some s
         \<and> frames s = [2, 1] \<and> length (frames s) = num_frames clock2
         \<and> card (set (resident (frames s))) \<le> num_frames clock2)
   \<and> (\<exists>s0 s1. simulate clock2 [(CHR ''R'', 0x0000), (CHR ''R'', 0x1000)] = Some s0
         \<and> process_record clock2 s0 (CHR ''R'', 0x2000) = Some s1
         \<and> frames s0 = [0, 1] \<and> no_dup (frames s0)
         \<and> frames s1 = [2, 1] \<and> no_dup (frames s1))"
proof -
  let ?s0 = "\<lparr>reads = 2, writes = 0, page_faults = 2, tlb_hits = 0, tlb_misses = 2,
            write_backs = 0, frames = [0, 1], frame_last_used = [0, 0], ref_bits = [1, 1],
            dirty = [0, 0], fifo_index = 0, clock_hand = 0, tick = 2,
            tlb = [\<lparr>valid = 1, vpn = 0, frame_index = 0, last_used = 1\<rparr>,
                   \<lparr>valid = 1, vpn = 1, frame_index = 1, last_used = 2\<rparr>]\<rparr>"
  let ?s1 = "\<lparr>reads = 3, writes = 0, page_faults = 3, tlb_hits = 0, tlb_misses = 3,
            write_backs = 0, frames = [2, 1], frame_last_used = [0, 0], ref_bits = [1, 0],
            dirty = [0, 0], fifo_index = 0, clock_hand = 1, tick = 3,
            tlb = [\<lparr>valid = 1, vpn = 2, frame_index = 0, last_used = 3\<rparr>,
                   \<lparr>valid = 1, vpn = 1, frame_index = 1, last_used = 2\<rparr>]\<rparr>"
  note t = no_duplicate_residency [OF clock2_ok,
      of "[(CHR ''R'', 0x0000), (CHR ''R'', 0x1000), (CHR ''R'', 0x2000)]" ?s0
         "(CHR ''R'', 0x2000)" ?s1]
  have h: "no_dup (frames ?s0) \<and> process_record clock2 ?s0 (CHR ''R'', 0x2000) = Some ?s1"
    using clock2_step by (simp add: no_dup_def resident_def)
  from t [THEN conjunct2, THEN mp, OF h] have n1: "no_dup (frames ?s1)" by simp
  from t [THEN conjunct1] h n1 clock2_ok show ?thesis
    unfolding clock2_run clock2_run_evict by simp
qed

text \<open>
  C4 (write-back accounting). Under write-back, the eviction step on a frame that holds a
  page and whose dirty bit is set adds exactly one to the write-back counter and clears that
  bit. For a whole record: a record that replaces the occupant of a frame whose dirty bit is
  set adds exactly one to the counter, and leaves the bit of that frame clear after a read
  and set, for the new page, after a write. A record changes the counter in no other case:
  a write that hits, in the TLB or in the frame scan, never counts. Under write-through the
  counter is zero and no dirty bit is set after any trace.
\<close>

theorem write_back_accounting:
  shows "(write_policy cfg = WP_WRITE_BACK \<and> k < length (dirty s0) \<and> frames s0 ! k \<noteq> - 1
            \<and> dirty s0 ! k \<noteq> 0
          \<longrightarrow> write_backs (evict_victim cfg k s0) = write_backs s0 + 1
              \<and> dirty (evict_victim cfg k s0) ! k = 0)
    \<and> (process_record cfg s0 r = Some s1
          \<longrightarrow> write_backs s1 = write_backs s0
              \<or> (write_backs s1 = write_backs s0 + 1
                  \<and> dirty_eviction cfg (snd r div PAGE_SIZE) s0 s1))
    \<and> (cfg_ok cfg \<and> write_policy cfg = WP_WRITE_THROUGH
          \<longrightarrow> (\<exists>s. simulate cfg recs = Some s \<and> write_backs s = 0
                    \<and> (\<forall>d\<in>set (dirty s). d = 0)))
    \<and> (write_policy cfg = WP_WRITE_BACK \<and> process_record cfg s0 r = Some s1
          \<and> j < length (frames s0) \<and> frames s1 ! j \<noteq> frames s0 ! j
          \<and> frames s0 ! j \<noteq> - 1 \<and> dirty s0 ! j \<noteq> 0
          \<longrightarrow> write_backs s1 = write_backs s0 + 1
              \<and> dirty s1 ! j = (if fst r = CHR ''W'' then 1 else 0))
    \<and> (process_record cfg s0 r = Some s1
          \<and> dirty_eviction cfg (snd r div PAGE_SIZE) s0 s1
          \<longrightarrow> write_backs s1 = write_backs s0 + 1)"
proof (intro conjI impI)
  assume "write_policy cfg = WP_WRITE_BACK \<and> k < length (dirty s0) \<and> frames s0 ! k \<noteq> - 1
            \<and> dirty s0 ! k \<noteq> 0"
  then show "write_backs (evict_victim cfg k s0) = write_backs s0 + 1"
    and "dirty (evict_victim cfg k s0) ! k = 0"
    by (simp_all add: evict_victim_write_backs evict_victim_dirty)
next
  assume "process_record cfg s0 r = Some s1"
  from process_record_write_backs [OF this]
  show "write_backs s1 = write_backs s0
              \<or> (write_backs s1 = write_backs s0 + 1
                  \<and> dirty_eviction cfg (snd r div PAGE_SIZE) s0 s1)" .
next
  assume a: "cfg_ok cfg \<and> write_policy cfg = WP_WRITE_THROUGH"
  then have c: "cfg_ok cfg" and wt: "write_policy cfg = WP_WRITE_THROUGH" by simp_all
  from simulate_ok [OF c, of recs] obtain s where s: "simulate cfg recs = Some s" "state_ok cfg s"
    by blast
  from run_trace_write_through [OF wt s(1) [unfolded simulate_def]]
  have w: "write_backs s = 0" by (simp add: init_state_def)
  from s(2) wt have "\<forall>d\<in>set (dirty s). d = 0" by (simp add: state_ok_def all_clean_def)
  with s(1) w show "\<exists>s. simulate cfg recs = Some s \<and> write_backs s = 0
                    \<and> (\<forall>d\<in>set (dirty s). d = 0)"
    by blast
next
  assume a: "write_policy cfg = WP_WRITE_BACK \<and> process_record cfg s0 r = Some s1
          \<and> j < length (frames s0) \<and> frames s1 ! j \<noteq> frames s0 ! j
          \<and> frames s0 ! j \<noteq> - 1 \<and> dirty s0 ! j \<noteq> 0"
  then have "placement cfg (fst r) (snd r div PAGE_SIZE) j s0 s1"
    by (intro process_record_replaces) simp_all
  with a show "write_backs s1 = write_backs s0 + 1"
    and "dirty s1 ! j = (if fst r = CHR ''W'' then 1 else 0)"
    by (simp_all add: placement_def)
next
  assume a: "process_record cfg s0 r = Some s1
          \<and> dirty_eviction cfg (snd r div PAGE_SIZE) s0 s1"
  let ?v = "snd r div PAGE_SIZE"
  from a obtain i where i: "write_policy cfg = WP_WRITE_BACK" "i < length (frames s0)"
    "frames s0 ! i \<noteq> - 1" "dirty s0 ! i \<noteq> 0" "frames s1 = (frames s0)[i := ?v]"
    "?v \<notin> set (frames s0)"
    unfolding dirty_eviction_def by blast
  from i(2) have "frames s0 ! i \<in> set (frames s0)" by simp
  with i(6) have "frames s0 ! i \<noteq> ?v" by auto
  with i(2,5) have "frames s1 ! i \<noteq> frames s0 ! i" by simp
  with a i(2) have "placement cfg (fst r) ?v i s0 s1"
    by (intro process_record_replaces) simp_all
  with i(1,3,4) show "write_backs s1 = write_backs s0 + 1"
    by (simp add: placement_def)
qed

theorem write_back_accounting_witness:
  "(\<exists>s0 s1. simulate (lru2 2) [(CHR ''W'', 0x0000), (CHR ''R'', 0x1000)] = Some s0
       \<and> write_policy (lru2 2) = WP_WRITE_BACK \<and> frames s0 ! 0 = 0 \<and> dirty s0 ! 0 = 1
       \<and> write_backs s0 = 0
       \<and> write_backs (evict_victim (lru2 2) 0 s0) = 1
       \<and> dirty (evict_victim (lru2 2) 0 s0) ! 0 = 0
       \<and> process_record (lru2 2) s0 (CHR ''R'', 0x2000) = Some s1
       \<and> write_backs s1 = 1 \<and> dirty_eviction (lru2 2) 2 s0 s1)
   \<and> cfg_ok (fifo2 WP_WRITE_THROUGH)
   \<and> (\<exists>s. simulate (fifo2 WP_WRITE_THROUGH)
              [(CHR ''W'', 0x0000), (CHR ''W'', 0x1000), (CHR ''W'', 0x2000)] = Some s
         \<and> writes s = 3 \<and> write_backs s = 0 \<and> dirty s = [0, 0])
   \<and> (\<exists>s0 s1. simulate (fifo2 WP_WRITE_BACK) [(CHR ''W'', 0x0000), (CHR ''W'', 0x1000)] = Some s0
         \<and> tlb s0 = [] \<and> frames s0 = [0, 1] \<and> dirty s0 = [1, 1] \<and> write_backs s0 = 0
         \<and> process_record (fifo2 WP_WRITE_BACK) s0 (CHR ''W'', 0x2000) = Some s1
         \<and> frames s1 = [2, 1] \<and> write_backs s1 = 1 \<and> dirty s1 ! 0 = 1
         \<and> dirty_eviction (fifo2 WP_WRITE_BACK) 2 s0 s1)
   \<and> map_option write_backs
        (simulate (fifo2 WP_WRITE_BACK)
           [(CHR ''W'', 0x0000), (CHR ''W'', 0x1000), (CHR ''W'', 0x2000), (CHR ''W'', 0x3000)])
       = Some 2"
proof -
  let ?s0 = "\<lparr>reads = 1, writes = 1, page_faults = 2, tlb_hits = 0, tlb_misses = 2,
            write_backs = 0, frames = [0, 1], frame_last_used = [1, 2], ref_bits = [0, 0],
            dirty = [1, 0], fifo_index = 0, clock_hand = 0, tick = 2,
            tlb = [\<lparr>valid = 1, vpn = 0, frame_index = 0, last_used = 1\<rparr>,
                   \<lparr>valid = 1, vpn = 1, frame_index = 1, last_used = 2\<rparr>]\<rparr>"
  let ?s1 = "\<lparr>reads = 2, writes = 1, page_faults = 3, tlb_hits = 0, tlb_misses = 3,
            write_backs = 1, frames = [2, 1], frame_last_used = [3, 2], ref_bits = [0, 0],
            dirty = [0, 0], fifo_index = 0, clock_hand = 0, tick = 3,
            tlb = [\<lparr>valid = 1, vpn = 2, frame_index = 0, last_used = 3\<rparr>,
                   \<lparr>valid = 1, vpn = 1, frame_index = 1, last_used = 2\<rparr>]\<rparr>"
  let ?f0 = "\<lparr>reads = 0, writes = 2, page_faults = 2, tlb_hits = 0, tlb_misses = 0,
            write_backs = 0, frames = [0, 1], frame_last_used = [0, 0], ref_bits = [0, 0],
            dirty = [1, 1], fifo_index = 0, clock_hand = 0, tick = 2, tlb = []\<rparr>"
  let ?f1 = "\<lparr>reads = 0, writes = 3, page_faults = 3, tlb_hits = 0, tlb_misses = 0,
            write_backs = 1, frames = [2, 1], frame_last_used = [0, 0], ref_bits = [0, 0],
            dirty = [1, 1], fifo_index = 1, clock_hand = 0, tick = 3, tlb = []\<rparr>"
  note u = write_back_accounting [of "fifo2 WP_WRITE_BACK" _ ?f0 "(CHR ''W'', 0x2000)" ?f1 _ 0]
  have g: "write_policy (fifo2 WP_WRITE_BACK) = WP_WRITE_BACK
      \<and> process_record (fifo2 WP_WRITE_BACK) ?f0 (CHR ''W'', 0x2000) = Some ?f1
      \<and> 0 < length (frames ?f0) \<and> frames ?f1 ! 0 \<noteq> frames ?f0 ! 0
      \<and> frames ?f0 ! 0 \<noteq> - 1 \<and> dirty ?f0 ! 0 \<noteq> 0"
    using fifo2_wb_step by (simp add: fifo2_def)
  from u [THEN conjunct2, THEN conjunct2, THEN conjunct2, THEN conjunct1, THEN mp, OF g]
  have d: "write_backs ?f1 = write_backs ?f0 + 1" "dirty ?f1 ! 0 = 1" by simp_all
  have de: "dirty_eviction (fifo2 WP_WRITE_BACK) 2 ?f0 ?f1"
    using u [THEN conjunct2, THEN conjunct1, THEN mp, OF fifo2_wb_step]
    by (simp add: PAGE_SIZE_def)
  note t = write_back_accounting [of "lru2 2" 0 ?s0 "(CHR ''R'', 0x2000)" ?s1]
  have wb: "write_policy (lru2 2) = WP_WRITE_BACK" by (simp add: lru2_def)
  have h: "write_policy (lru2 2) = WP_WRITE_BACK \<and> 0 < length (dirty ?s0)
             \<and> frames ?s0 ! 0 \<noteq> - 1 \<and> dirty ?s0 ! 0 \<noteq> 0"
    using wb by simp
  from t [THEN conjunct1, THEN mp, OF h]
  have a: "write_backs (evict_victim (lru2 2) 0 ?s0) = 1"
    "dirty (evict_victim (lru2 2) 0 ?s0) ! 0 = 0"
    by simp_all
  from t [THEN conjunct2, THEN conjunct1, THEN mp, OF lru2_step]
  have b: "dirty_eviction (lru2 2) 2 ?s0 ?s1" by (simp add: PAGE_SIZE_def)
  let ?w = "[(CHR ''W'', 0x0000), (CHR ''W'', 0x1000), (CHR ''W'', 0x2000 :: 32 word)]"
  have wt: "cfg_ok (fifo2 WP_WRITE_THROUGH)
      \<and> write_policy (fifo2 WP_WRITE_THROUGH) = WP_WRITE_THROUGH"
    using fifo2_ok by (simp add: fifo2_def)
  from write_back_accounting [of "fifo2 WP_WRITE_THROUGH" _ _ _ _ ?w,
      THEN conjunct2, THEN conjunct2, THEN conjunct1, THEN mp, OF wt]
  have c: "\<exists>s. simulate (fifo2 WP_WRITE_THROUGH) ?w = Some s \<and> writes s = 3
              \<and> write_backs s = 0 \<and> dirty s = [0, 0]"
    unfolding fifo2_writes_run by simp
  from a b c wb lru2_step fifo2_ok d de fifo2_wb_step fifo2_wb_run4 show ?thesis
    unfolding lru2_run fifo2_wb_run by simp
qed

text \<open>
  C5 (malformed-record skip), as amended. A record whose operation character is neither
  \<open>R\<close> nor \<open>W\<close> is not an error and leaves the six counters, the frame array with its
  stamps, reference bits and dirty bits, the FIFO pointer, the CLOCK hand and the TLB
  unchanged; the tick still advances by one, because \<open>tick++\<close> (line 210) comes before the
  test of the operation character (lines 212-214).
\<close>

theorem malformed_record_skip:
  assumes "opc \<noteq> CHR ''R''" "opc \<noteq> CHR ''W''"
  shows "process_record cfg s (opc, addr) = Some (s\<lparr>tick := tick s + 1\<rparr>)"
  using assms by (simp add: process_record_def Let_def)

theorem malformed_record_skip_witness:
  "CHR ''X'' \<noteq> CHR ''R'' \<and> CHR ''X'' \<noteq> CHR ''W''
   \<and> process_record (lru2 2) (init_state (lru2 2)) (CHR ''X'', 0x2000)
       = Some ((init_state (lru2 2))\<lparr>tick := 1\<rparr>)"
  using malformed_record_skip [of "CHR ''X''" "lru2 2" "init_state (lru2 2)" "0x2000"]
  by (simp add: init_state_def)

text \<open>
  The claim as written counts the logical clock among what the record leaves unchanged.
  On the initial state of a two-frame LRU run, the record \<open>X 0x2000\<close> does not return the
  state it was given: the tick goes from 0 to 1.
\<close>

theorem malformed_record_advances_tick:
  "tick (init_state (lru2 2)) = 0
   \<and> process_record (lru2 2) (init_state (lru2 2)) (CHR ''X'', 0x2000)
        \<noteq> Some (init_state (lru2 2))
   \<and> map_option tick (process_record (lru2 2) (init_state (lru2 2)) (CHR ''X'', 0x2000))
        = Some 1"
  by (simp add: process_record_def init_state_def Let_def)



text \<open>
  C7 (LRU recency and victim rule). Under LRU, in every state a run reaches, a read or a
  write is processed without error, advances the tick by one and leaves the page in a frame
  whose stamp is the new tick, every other stamp unchanged: this covers the TLB hit, the hit
  of the frame scan and the placement after a fault. When no frame is empty, the victim is
  the frame of smallest stamp, the lowest index among equal stamps, and the choice changes
  nothing else. With two frames, any TLB size and either write policy, four reads or writes
  to the pages \<open>A, B, A, C\<close> (three distinct pages) end with \<open>A\<close> and \<open>C\<close> resident: the
  touch of \<open>A\<close> after \<open>B\<close> preserves \<open>A\<close>, and the fault on \<open>C\<close> evicts \<open>B\<close>.
\<close>

theorem lru_recency:
  assumes c: "cfg_ok cfg" and l: "alg cfg = ALG_LRU"
  shows "(simulate cfg recs = Some s \<and> (opc = CHR ''R'' \<or> opc = CHR ''W'') \<longrightarrow>
            (\<exists>s' i. process_record cfg s (opc, addr) = Some s' \<and> tick s' = tick s + 1
                \<and> i < num_frames cfg \<and> frames s' ! i = addr div PAGE_SIZE
                \<and> frame_last_used s' = (frame_last_used s)[i := tick s']))
    \<and> ((\<forall>x\<in>set (frames s0). x \<noteq> - 1) \<and> length (frame_last_used s0) = num_frames cfg \<longrightarrow>
          (\<exists>k<num_frames cfg. choose_victim cfg s0 = Some (k, s0)
              \<and> (\<forall>j<num_frames cfg. frame_last_used s0 ! k \<le> frame_last_used s0 ! j)
              \<and> (\<forall>j<k. frame_last_used s0 ! k < frame_last_used s0 ! j)))
    \<and> (num_frames cfg = 2
          \<and> (o1 = CHR ''R'' \<or> o1 = CHR ''W'') \<and> (o2 = CHR ''R'' \<or> o2 = CHR ''W'')
          \<and> (o3 = CHR ''R'' \<or> o3 = CHR ''W'') \<and> (o4 = CHR ''R'' \<or> o4 = CHR ''W'')
          \<and> a div PAGE_SIZE \<noteq> b div PAGE_SIZE \<and> c div PAGE_SIZE \<noteq> a div PAGE_SIZE
          \<and> c div PAGE_SIZE \<noteq> b div PAGE_SIZE \<longrightarrow>
          (\<exists>s. simulate cfg [(o1, a), (o2, b), (o3, a), (o4, c)] = Some s
              \<and> frames s = [a div PAGE_SIZE, c div PAGE_SIZE]))"
proof (intro conjI impI)
  assume a: "simulate cfg recs = Some s \<and> (opc = CHR ''R'' \<or> opc = CHR ''W'')"
  with simulate_ok [OF c, of recs] have ok: "state_ok cfg s" by simp
  let ?s1 = "s\<lparr>tick := tick s + 1\<rparr>"
  let ?s2 = "if opc = CHR ''R'' then ?s1\<lparr>reads := reads ?s1 + 1\<rparr>
             else ?s1\<lparr>writes := writes ?s1 + 1\<rparr>"
  from ok have ok2: "state_ok cfg ?s2" by (simp add: state_ok_def arrays_ok_def all_clean_def)
  from a have pr: "process_record cfg s (opc, addr) = access cfg opc addr ?s2"
    by (auto simp: process_record_def Let_def)
  from access_ok [OF c ok2, of opc addr] obtain s' where s': "access cfg opc addr ?s2 = Some s'"
    by blast
  from access_lru_stamp [OF s' l ok2] obtain i where i: "i < num_frames cfg"
    "frames s' ! i = addr div PAGE_SIZE"
    "frame_last_used s' = (frame_last_used ?s2)[i := tick ?s2]" "tick s' = tick ?s2"
    by blast
  have "tick s' = tick s + 1" using i(4) by simp
  moreover have "frame_last_used s' = (frame_last_used s)[i := tick s']"
    using i(3,4) by simp
  ultimately show "\<exists>s' i. process_record cfg s (opc, addr) = Some s' \<and> tick s' = tick s + 1
                \<and> i < num_frames cfg \<and> frames s' ! i = addr div PAGE_SIZE
                \<and> frame_last_used s' = (frame_last_used s)[i := tick s']"
    using pr s' i(1,2) by auto
next
  assume a: "(\<forall>x\<in>set (frames s0). x \<noteq> - 1) \<and> length (frame_last_used s0) = num_frames cfg"
  let ?lu = "frame_last_used s0"
  from a c have ne: "?lu \<noteq> []" by (auto simp: cfg_ok_def)
  from a have ch: "choose_victim cfg s0 = Some (lru_victim ?lu, s0)"
    by (intro lru_victim_choice [OF l]) simp
  have k: "lru_victim ?lu < num_frames cfg" using lru_victim_min(1) [OF ne] a by simp
  have m1: "\<forall>j<num_frames cfg. ?lu ! lru_victim ?lu \<le> ?lu ! j"
    using lru_victim_min(2) [OF ne] a by simp
  have m2: "\<forall>j<lru_victim ?lu. ?lu ! lru_victim ?lu < ?lu ! j"
    using lru_victim_min(3) [OF ne] by simp
  from ch k m1 m2 show "\<exists>k<num_frames cfg. choose_victim cfg s0 = Some (k, s0)
              \<and> (\<forall>j<num_frames cfg. frame_last_used s0 ! k \<le> frame_last_used s0 ! j)
              \<and> (\<forall>j<k. frame_last_used s0 ! k < frame_last_used s0 ! j)"
    by blast
next
  assume "num_frames cfg = 2
          \<and> (o1 = CHR ''R'' \<or> o1 = CHR ''W'') \<and> (o2 = CHR ''R'' \<or> o2 = CHR ''W'')
          \<and> (o3 = CHR ''R'' \<or> o3 = CHR ''W'') \<and> (o4 = CHR ''R'' \<or> o4 = CHR ''W'')
          \<and> a div PAGE_SIZE \<noteq> b div PAGE_SIZE \<and> c div PAGE_SIZE \<noteq> a div PAGE_SIZE
          \<and> c div PAGE_SIZE \<noteq> b div PAGE_SIZE"
  with l show "\<exists>s. simulate cfg [(o1, a), (o2, b), (o3, a), (o4, c)] = Some s
              \<and> frames s = [a div PAGE_SIZE, c div PAGE_SIZE]"
    by (intro lru_scenario_general) simp_all
qed

theorem lru_recency_witness:
  "cfg_ok (lru2 2) \<and> alg (lru2 2) = ALG_LRU
   \<and> (\<exists>s s'. simulate (lru2 2) [(CHR ''W'', 0x0000), (CHR ''R'', 0x1000)] = Some s
         \<and> frames s = [0, 1] \<and> frame_last_used s = [1, 2] \<and> tick s = 2
         \<and> process_record (lru2 2) s (CHR ''R'', 0x0000) = Some s'
         \<and> tick s' = 3 \<and> tlb_hits s' = 1 \<and> frame_last_used s' = [3, 2]
         \<and> choose_victim (lru2 2) s' = Some (1, s'))
   \<and> (\<exists>s. simulate (lru2 2)
            [(CHR ''R'', 0x0000), (CHR ''W'', 0x1000), (CHR ''R'', 0x0000), (CHR ''R'', 0x2000)]
           = Some s
         \<and> frames s = [0, 2])"
proof -
  let ?s = "\<lparr>reads = 1, writes = 1, page_faults = 2, tlb_hits = 0, tlb_misses = 2,
            write_backs = 0, frames = [0, 1], frame_last_used = [1, 2], ref_bits = [0, 0],
            dirty = [1, 0], fifo_index = 0, clock_hand = 0, tick = 2,
            tlb = [\<lparr>valid = 1, vpn = 0, frame_index = 0, last_used = 1\<rparr>,
                   \<lparr>valid = 1, vpn = 1, frame_index = 1, last_used = 2\<rparr>]\<rparr>"
  let ?s' = "\<lparr>reads = 2, writes = 1, page_faults = 2, tlb_hits = 1, tlb_misses = 2,
            write_backs = 0, frames = [0, 1], frame_last_used = [3, 2], ref_bits = [0, 0],
            dirty = [1, 0], fifo_index = 0, clock_hand = 0, tick = 3,
            tlb = [\<lparr>valid = 1, vpn = 0, frame_index = 0, last_used = 3\<rparr>,
                   \<lparr>valid = 1, vpn = 1, frame_index = 1, last_used = 2\<rparr>]\<rparr>"
  have l: "alg (lru2 2) = ALG_LRU" by (simp add: lru2_def)
  note t = lru_recency [OF lru2_ok l,
      of "[(CHR ''W'', 0x0000), (CHR ''R'', 0x1000)]" ?s "CHR ''R''" "0x0000" ?s'
         "CHR ''R''" "CHR ''W''" "CHR ''R''" "CHR ''R''" "0x0000" "0x1000" "0x2000"]
  have h1: "simulate (lru2 2) [(CHR ''W'', 0x0000), (CHR ''R'', 0x1000)] = Some ?s
      \<and> (CHR ''R'' = CHR ''R'' \<or> CHR ''R'' = CHR ''W'')"
    using lru2_run by simp
  from t [THEN conjunct1, THEN mp, OF h1] obtain s1 i where
    p: "process_record (lru2 2) ?s (CHR ''R'', 0x0000) = Some s1" "tick s1 = tick ?s + 1"
      "frame_last_used s1 = (frame_last_used ?s)[i := tick s1]"
    by blast
  have h2: "(\<forall>x\<in>set (frames ?s'). x \<noteq> - 1)
      \<and> length (frame_last_used ?s') = num_frames (lru2 2)"
    by (simp add: lru2_def)
  from t [THEN conjunct2, THEN conjunct1, THEN mp, OF h2] obtain k where
    k: "k < num_frames (lru2 2)" "choose_victim (lru2 2) ?s' = Some (k, ?s')"
      "\<forall>j<num_frames (lru2 2). frame_last_used ?s' ! k \<le> frame_last_used ?s' ! j"
    by blast
  from k(1) have "k = 0 \<or> k = 1" by (auto simp: lru2_def)
  then have "k = 1"
  proof
    assume "k = 0"
    with k(3) [rule_format, of 1] show ?thesis by (simp add: lru2_def)
  qed
  with k(2) have ch: "choose_victim (lru2 2) ?s' = Some (1, ?s')" by simp
  have h3: "num_frames (lru2 2) = 2
      \<and> (CHR ''R'' = CHR ''R'' \<or> CHR ''R'' = CHR ''W'')
      \<and> (CHR ''W'' = CHR ''R'' \<or> CHR ''W'' = CHR ''W'')
      \<and> (CHR ''R'' = CHR ''R'' \<or> CHR ''R'' = CHR ''W'')
      \<and> (CHR ''R'' = CHR ''R'' \<or> CHR ''R'' = CHR ''W'')
      \<and> (0x0000 :: 32 word) div PAGE_SIZE \<noteq> 0x1000 div PAGE_SIZE
      \<and> (0x2000 :: 32 word) div PAGE_SIZE \<noteq> 0x0000 div PAGE_SIZE
      \<and> (0x2000 :: 32 word) div PAGE_SIZE \<noteq> 0x1000 div PAGE_SIZE"
    by (simp add: lru2_def PAGE_SIZE_def)
  from t [THEN conjunct2, THEN conjunct2, THEN mp, OF h3]
  have sc: "\<exists>s. simulate (lru2 2)
            [(CHR ''R'', 0x0000), (CHR ''W'', 0x1000), (CHR ''R'', 0x0000), (CHR ''R'', 0x2000)]
           = Some s
         \<and> frames s = [0, 2]"
    by (simp add: PAGE_SIZE_def)
  from p(1,2) have "s1 = ?s'" "tick s1 = 3" using lru2_touch_step by simp_all
  with p(1) ch l lru2_ok [of 2] sc show ?thesis
    unfolding lru2_run by simp
qed

text \<open>
  C9 (FIFO scenario). Under every policy, when some frame is empty the victim is the empty
  frame of lowest index and the choice changes no policy state. With FIFO, two frames and no
  TLB, under either write policy, the trace \<open>R 0x0000, R 0x1000, R 0x2000, R 0x0000\<close> faults
  on every record: the frames are \<open>[0, -]\<close>, then \<open>[0, 1]\<close>, then \<open>[2, 1]\<close> (page 0 evicted,
  the FIFO pointer now at frame 1), then \<open>[2, 0]\<close> (page 1 evicted); at the end there are four
  page faults for four reads, so no access was a hit.
\<close>

theorem fifo_scenario:
  "(i < length (frames s) \<and> frames s ! i = - 1 \<and> (\<forall>j<i. frames s ! j \<noteq> - 1)
      \<longrightarrow> choose_victim cfg s = Some (i, s))
   \<and> map_option (\<lambda>s. (frames s, page_faults s, fifo_index s))
        (simulate (fifo2 wp) [(CHR ''R'', 0x0000)])
       = Some ([0, - 1], 1, 0)
   \<and> map_option (\<lambda>s. (frames s, page_faults s, fifo_index s))
        (simulate (fifo2 wp) [(CHR ''R'', 0x0000), (CHR ''R'', 0x1000)])
       = Some ([0, 1], 2, 0)
   \<and> map_option (\<lambda>s. (frames s, page_faults s, fifo_index s))
        (simulate (fifo2 wp) [(CHR ''R'', 0x0000), (CHR ''R'', 0x1000), (CHR ''R'', 0x2000)])
       = Some ([2, 1], 3, 1)
   \<and> map_option (\<lambda>s. (frames s, page_faults s, fifo_index s, reads s, writes s, tlb_hits s))
        (simulate (fifo2 wp)
           [(CHR ''R'', 0x0000), (CHR ''R'', 0x1000), (CHR ''R'', 0x2000), (CHR ''R'', 0x0000)])
       = Some ([2, 0], 4, 0, 4, 0, 0)"
proof -
  have g: "i < length (frames s) \<and> frames s ! i = - 1 \<and> (\<forall>j<i. frames s ! j \<noteq> - 1)
      \<longrightarrow> choose_victim cfg s = Some (i, s)"
    using empty_frame_first [of i s cfg] by blast
  from fifo2_scenario [of wp]
  have r: "map_option (\<lambda>s. (frames s, page_faults s, fifo_index s, reads s, writes s, tlb_hits s))
        (simulate (fifo2 wp) [(CHR ''R'', 0x0000)]) = Some ([0, - 1], 1, 0, 1, 0, 0)"
    "map_option (\<lambda>s. (frames s, page_faults s, fifo_index s, reads s, writes s, tlb_hits s))
        (simulate (fifo2 wp) [(CHR ''R'', 0x0000), (CHR ''R'', 0x1000)])
       = Some ([0, 1], 2, 0, 2, 0, 0)"
    "map_option (\<lambda>s. (frames s, page_faults s, fifo_index s, reads s, writes s, tlb_hits s))
        (simulate (fifo2 wp) [(CHR ''R'', 0x0000), (CHR ''R'', 0x1000), (CHR ''R'', 0x2000)])
       = Some ([2, 1], 3, 1, 3, 0, 0)"
    "map_option (\<lambda>s. (frames s, page_faults s, fifo_index s, reads s, writes s, tlb_hits s))
        (simulate (fifo2 wp)
           [(CHR ''R'', 0x0000), (CHR ''R'', 0x1000), (CHR ''R'', 0x2000), (CHR ''R'', 0x0000)])
       = Some ([2, 0], 4, 0, 4, 0, 0)"
    by simp_all
  from r(1) have 1: "map_option (\<lambda>s. (frames s, page_faults s, fifo_index s))
        (simulate (fifo2 wp) [(CHR ''R'', 0x0000)]) = Some ([0, - 1], 1, 0)"
    by auto
  from r(2) have 2: "map_option (\<lambda>s. (frames s, page_faults s, fifo_index s))
        (simulate (fifo2 wp) [(CHR ''R'', 0x0000), (CHR ''R'', 0x1000)]) = Some ([0, 1], 2, 0)"
    by auto
  from r(3) have 3: "map_option (\<lambda>s. (frames s, page_faults s, fifo_index s))
        (simulate (fifo2 wp) [(CHR ''R'', 0x0000), (CHR ''R'', 0x1000), (CHR ''R'', 0x2000)])
       = Some ([2, 1], 3, 1)"
    by auto
  from g 1 2 3 r(4) show ?thesis by blast
qed

theorem fifo_scenario_witness:
  "(1::nat) < length (frames ((init_state clock2)\<lparr>frames := [5, - 1]\<rparr>))
   \<and> frames ((init_state clock2)\<lparr>frames := [5, - 1]\<rparr>) ! 1 = - 1
   \<and> frames ((init_state clock2)\<lparr>frames := [5, - 1]\<rparr>) ! 0 \<noteq> - 1
   \<and> choose_victim clock2 ((init_state clock2)\<lparr>frames := [5, - 1]\<rparr>)
        = Some (1, (init_state clock2)\<lparr>frames := [5, - 1]\<rparr>)
   \<and> map_option page_faults
        (simulate (fifo2 WP_WRITE_THROUGH)
           [(CHR ''R'', 0x0000), (CHR ''R'', 0x1000), (CHR ''R'', 0x2000), (CHR ''R'', 0x0000)])
       = Some 4"
proof -
  let ?s = "(init_state clock2)\<lparr>frames := [5, - 1]\<rparr>"
  note t = fifo_scenario [of 1 ?s clock2 WP_WRITE_THROUGH]
  have h: "1 < length (frames ?s) \<and> frames ?s ! 1 = - 1 \<and> (\<forall>j<1. frames ?s ! j \<noteq> - 1)"
    by simp
  from t [THEN conjunct1, THEN mp, OF h] have a: "choose_victim clock2 ?s = Some (1, ?s)" .
  from t have "map_option (\<lambda>s. (frames s, page_faults s, fifo_index s, reads s, writes s, tlb_hits s))
        (simulate (fifo2 WP_WRITE_THROUGH)
           [(CHR ''R'', 0x0000), (CHR ''R'', 0x1000), (CHR ''R'', 0x2000), (CHR ''R'', 0x0000)])
       = Some ([2, 0], 4, 0, 4, 0, 0)"
    by blast
  then have b: "map_option page_faults
        (simulate (fifo2 WP_WRITE_THROUGH)
           [(CHR ''R'', 0x0000), (CHR ''R'', 0x1000), (CHR ''R'', 0x2000), (CHR ''R'', 0x0000)])
       = Some 4"
    by auto
  from a b h show ?thesis by simp
qed

end
